theory Spec2Isabelle
  imports Complex_Main "HOL-Library.AList"
begin

section \<open>Data model\<close>

text \<open>
  A JavaScript string is a sequence of UTF-16 code units; the model has the strings whose
  code units are below 256, as \<open>char list\<close>.  Where the code can hold \<open>null\<close> or
  \<open>undefined\<close> in place of a string (the argument of \<open>parse\<close>, a capture group
  that did not take part in a match, the \<open>from\<close> and \<open>to\<close> of a command marker),
  the value is an \<open>ident\<close>.  A JavaScript \<open>Map\<close> is an association list in
  insertion order with distinct keys: \<open>map_of\<close> is \<open>get\<close>, \<open>AList.update\<close> is
  \<open>set\<close> (it replaces the value in place, or appends a new key at the end).
\<close>

datatype ident = Undefined | Null | Str string

text \<open>Conversion to a string, as a template literal does it.\<close>

definition to_string :: "ident \<Rightarrow> string" where
  "to_string v = (case v of Undefined \<Rightarrow> ''undefined'' | Null \<Rightarrow> ''null'' | Str s \<Rightarrow> s)"

text \<open>Truthiness: \<open>undefined\<close>, \<open>null\<close> and the empty string are falsy.\<close>

definition truthy :: "ident \<Rightarrow> bool" where
  "truthy v = (case v of Str (c # cs) \<Rightarrow> True | _ \<Rightarrow> False)"

definition js_or :: "ident \<Rightarrow> ident \<Rightarrow> ident" where
  "js_or a b = (if truthy a then a else b)"

record style =
  strokeWidth :: real
  strokeDasharray :: string

record connection =
  conn_id :: string
  conn_from :: ident
  conn_to :: ident
  conn_label :: string
  arrowType :: string
  connectionType :: "string option"
  conn_style :: style
  conn_command :: "(string \<times> string) option"

record edge =
  edge_to :: ident
  connectionId :: string
  edge_label :: string

type_synonym flow_graph = "(ident \<times> edge list) list"

section \<open>Flow graph (animation-system.js, buildFlowGraph)\<close>

definition edge_of :: "connection \<Rightarrow> edge" where
  "edge_of conn = \<lparr>edge_to = conn_to conn, connectionId = conn_id conn, edge_label = conn_label conn\<rparr>"

text \<open>One iteration of the \<open>forEach\<close> of \<open>buildFlowGraph\<close>: create the adjacency list
  of \<open>conn.from\<close> when the key is new, then push the edge onto it.\<close>

definition add_edge :: "connection \<Rightarrow> flow_graph \<Rightarrow> flow_graph" where
  "add_edge conn g =
     (let g1 = (if map_of g (conn_from conn) = None then AList.update (conn_from conn) [] g else g)
      in case map_of g1 (conn_from conn) of
           None \<Rightarrow> g1
         | Some es \<Rightarrow> AList.update (conn_from conn) (es @ [edge_of conn]) g1)"

definition buildFlowGraph :: "connection list \<Rightarrow> flow_graph" where
  "buildFlowGraph conns = fold add_edge conns []"

text \<open>\<open>this.flowGraph.get(id) || []\<close>\<close>

definition outgoing :: "flow_graph \<Rightarrow> ident \<Rightarrow> edge list" where
  "outgoing g k = (case map_of g k of None \<Rightarrow> [] | Some es \<Rightarrow> es)"

definition adjacency_total :: "flow_graph \<Rightarrow> nat" where
  "adjacency_total g = sum_list (map (\<lambda>kv. length (snd kv)) g)"

text \<open>A command marker is a stored record whose \<open>from\<close> is \<open>null\<close>.\<close>

definition is_command :: "connection \<Rightarrow> bool" where
  "is_command conn = (conn_from conn = Null)"

section \<open>Rendering collaborator (canvas-engine.js), as far as the engine drives it\<close>

text \<open>
  The canvas is a DOM tree.  The model keeps what the animation engine changes: the class
  list of every rendered object element and of every rendered connection line, and the
  inline style properties of the lines.  An element that was not rendered is not found by
  \<open>querySelector\<close>, and the command does nothing.  The fill and stroke of the object
  rectangles are not modelled.
\<close>

record line_style =
  ls_stroke :: string
  ls_strokeWidth :: "real option"
  ls_markerEnd :: string
  ls_filter :: string
  ls_dasharray :: string
  ls_dashoffset :: string
  ls_transition :: string

record canvas =
  objectElements :: "string list"
  lineElements :: "string list"
  objectClasses :: "(string \<times> string) list"
  lineClasses :: "(string \<times> string) list"
  lineStyles :: "(string \<times> line_style) list"
  canvas_connections :: "connection list"

text \<open>The selector is the template string \<open>`[data-id="${objectId}"]`\<close>.\<close>

definition data_id :: "ident \<Rightarrow> string" where
  "data_id k = to_string k"

definition highlightObject :: "ident \<Rightarrow> string \<Rightarrow> canvas \<Rightarrow> canvas" where
  "highlightObject objectId className cv =
     (if data_id objectId \<in> set (objectElements cv)
      then cv\<lparr>objectClasses := List.insert (data_id objectId, className) (objectClasses cv)\<rparr>
      else cv)"

definition set_line_style :: "string \<Rightarrow> (line_style \<Rightarrow> line_style) \<Rightarrow> canvas \<Rightarrow> canvas" where
  "set_line_style i f cv =
     cv\<lparr>lineStyles := map (\<lambda>(j, s). if j = i then (j, f s) else (j, s)) (lineStyles cv)\<rparr>"

text \<open>Re-applying \<open>connection.style\<close>: the entries are \<open>strokeWidth\<close>, then
  \<open>strokeDasharray\<close> (set only when it is not \<open>'none'\<close>).\<close>

definition reapply_style :: "connection list \<Rightarrow> string \<Rightarrow> line_style \<Rightarrow> line_style" where
  "reapply_style conns i s =
     (case find (\<lambda>c. conn_id c = i) conns of
        None \<Rightarrow> s
      | Some c \<Rightarrow>
          (let s1 = s\<lparr>ls_strokeWidth := Some (strokeWidth (conn_style c))\<rparr>
           in if strokeDasharray (conn_style c) \<noteq> ''none''
              then s1\<lparr>ls_dasharray := strokeDasharray (conn_style c)\<rparr> else s1))"

definition highlightConnection :: "string \<Rightarrow> string \<Rightarrow> canvas \<Rightarrow> canvas" where
  "highlightConnection cid className cv =
     (if cid \<in> set (lineElements cv)
      then (let cv1 = cv\<lparr>lineClasses := List.insert (cid, className) (lineClasses cv)\<rparr>
            in if className = ''active''
               then set_line_style cid
                      (\<lambda>s. s\<lparr>ls_stroke := ''#C5B0CD'', ls_strokeWidth := Some 4,
                              ls_markerEnd := ''url(#arrowhead-active)''\<rparr>) cv1
               else cv1)
      else cv)"

definition removeConnectionHighlight :: "string \<Rightarrow> string \<Rightarrow> canvas \<Rightarrow> canvas" where
  "removeConnectionHighlight cid className cv =
     (if cid \<in> set (lineElements cv)
      then (let cv1 = cv\<lparr>lineClasses := removeAll (cid, className) (lineClasses cv)\<rparr>
            in if className = ''active''
               then set_line_style cid
                      (\<lambda>s. reapply_style (canvas_connections cv) cid
                             (s\<lparr>ls_stroke := ''#415E72'', ls_strokeWidth := Some 2,
                               ls_markerEnd := ''url(#arrowhead)''\<rparr>)) cv1
               else cv1)
      else cv)"

definition clearAllHighlights :: "canvas \<Rightarrow> canvas" where
  "clearAllHighlights cv =
     cv\<lparr>objectClasses :=
          filter (\<lambda>(i, c). c \<notin> {''highlighted'', ''selected'', ''focused''}) (objectClasses cv),
        lineClasses := filter (\<lambda>(i, c). c \<noteq> ''active'') (lineClasses cv),
        lineStyles :=
          map (\<lambda>(i, s). (i, reapply_style (canvas_connections cv) i
                 (s\<lparr>ls_stroke := ''#415E72'', ls_strokeWidth := Some 2,
                   ls_markerEnd := ''url(#arrowhead)'', ls_filter := [], ls_dasharray := [],
                   ls_dashoffset := [], ls_transition := []\<rparr>)))
              (lineStyles cv)\<rparr>"

section \<open>Animation engine state (animation-system.js)\<close>

record engine =
  canvas :: canvas
  animationQueue :: "string list"
  isAnimating :: bool
  animationSpeed :: real
  connections :: "connection list"
  flowGraph :: flow_graph

definition initialize :: "connection list \<Rightarrow> engine \<Rightarrow> engine" where
  "initialize conns e = e\<lparr>connections := conns, flowGraph := buildFlowGraph conns\<rparr>"

definition setSpeed :: "real \<Rightarrow> engine \<Rightarrow> engine" where
  "setSpeed speed e = e\<lparr>animationSpeed := max 0.1 (min 5.0 speed)\<rparr>"

definition stopAnimation :: "engine \<Rightarrow> engine" where
  "stopAnimation e =
     (let cv = clearAllHighlights (canvas e)
      in e\<lparr>isAnimating := False, animationQueue := [],
           canvas := cv\<lparr>lineStyles :=
             map (\<lambda>(i, s). (i, s\<lparr>ls_transition := [], ls_dasharray := [], ls_dashoffset := []\<rparr>))
                 (lineStyles cv)\<rparr>\<rparr>)"

section \<open>Flow animation (animation-system.js, startFlowAnimation and animateFlow)\<close>

text \<open>
  The engine commands the canvas and waits; it never reads the canvas back.  A run is
  therefore modelled by the sequence of commands and waits it issues.  A wait carries the
  base delay in milliseconds, which the code divides by the speed.  \<open>createFlowingEffect\<close>
  (dash and width transitions of the line, with timers of their own) is not modelled.

  \<open>animateFlow\<close> below is a run that nothing interrupts: the flag \<open>isAnimating\<close> is
  read at every check of the source, and it has the same value at all of them.
\<close>

datatype event =
    HighlightObject ident
  | HighlightConnection string
  | RemoveConnectionHighlight string
  | ClearAllHighlights
  | Delay nat

definition animateConnection :: "bool \<Rightarrow> string \<Rightarrow> event list" where
  "animateConnection running cid =
     (if \<not> running then []
      else [HighlightConnection cid, Delay 600, Delay 100]
           @ (if running then [RemoveConnectionHighlight cid] else []))"

lemma outgoing_key: "outgoing g k = e # es \<Longrightarrow> k \<in> fst ` set g"
  by (auto simp: outgoing_def split: option.splits dest: map_of_SomeD intro: rev_image_eqI)

text \<open>\<open>animateBranches\<close> is the \<open>for ... of\<close> loop over the outgoing connections;
  \<open>n\<close> is \<open>outgoingConnections.length\<close>.  The visited set is passed by value
  (\<open>new Set(visitedObjects)\<close>), so every branch starts from the set of its ancestors.\<close>

function animateFlow :: "flow_graph \<Rightarrow> bool \<Rightarrow> ident \<Rightarrow> ident set \<Rightarrow> event list"
  and animateBranches :: "flow_graph \<Rightarrow> bool \<Rightarrow> ident set \<Rightarrow> nat \<Rightarrow> edge list \<Rightarrow> event list"
where
  "animateFlow g running objectId visitedObjects =
     (if \<not> running \<or> objectId \<in> visitedObjects then []
      else HighlightObject objectId # Delay 300 #
        (if \<not> running then []
         else case outgoing g objectId of
                [] \<Rightarrow> [Delay 500]
              | c # cs \<Rightarrow> animateBranches g running (insert objectId visitedObjects)
                            (length (c # cs)) (c # cs)))"
| "animateBranches g running visitedObjects n [] = []"
| "animateBranches g running visitedObjects n (c # cs) =
     (if \<not> running then []
      else animateConnection running (connectionId c) @
        (if \<not> running then []
         else animateFlow g running (edge_to c) visitedObjects
              @ (if n > 1 then [Delay 200] else [])
              @ animateBranches g running visitedObjects n cs))"
  by pat_completeness auto
termination
proof (relation "measures [\<lambda>x. case x of Inl (g, r, k, V) \<Rightarrow> card (fst ` set g - V)
                                        | Inr (g, r, V, n, cs) \<Rightarrow> card (fst ` set g - V),
                           \<lambda>x. case x of Inl _ \<Rightarrow> 0 | Inr (g, r, V, n, cs) \<Rightarrow> Suc (length cs)]",
       goal_cases)
  case 1 show ?case by simp
next
  case (2 g running objectId visitedObjects c cs)
  then have k: "objectId \<in> fst ` set g" "objectId \<notin> visitedObjects"
    by (auto dest: outgoing_key)
  have "fst ` set g - insert objectId visitedObjects \<subset> fst ` set g - visitedObjects"
    using k by auto
  then have "card (fst ` set g - insert objectId visitedObjects) < card (fst ` set g - visitedObjects)"
    by (intro psubset_card_mono) auto
  then show ?case by simp
next
  case 3 then show ?case by simp
next
  case 4 then show ?case by simp
qed

fun apply_event :: "event \<Rightarrow> canvas \<Rightarrow> canvas" where
  "apply_event (HighlightObject k) cv = highlightObject k ''highlighted'' cv"
| "apply_event (HighlightConnection cid) cv = highlightConnection cid ''active'' cv"
| "apply_event (RemoveConnectionHighlight cid) cv = removeConnectionHighlight cid ''active'' cv"
| "apply_event ClearAllHighlights cv = clearAllHighlights cv"
| "apply_event (Delay ms) cv = cv"

text \<open>\<open>startFlowAnimation\<close>, run to its end with no other handler in between: the final
  engine state and the commands issued after the optional \<open>stopAnimation\<close>.\<close>

definition startFlowAnimation :: "ident \<Rightarrow> engine \<Rightarrow> engine \<times> event list" where
  "startFlowAnimation startObjectId e =
     (let e1 = (if isAnimating e then stopAnimation e else e);
          e2 = e1\<lparr>isAnimating := True\<rparr>;
          tr = ClearAllHighlights # animateFlow (flowGraph e2) (isAnimating e2) startObjectId {}
      in (e2\<lparr>canvas := fold apply_event tr (canvas e2), isAnimating := False\<rparr>, tr))"

text \<open>The entities a run highlights, in order.\<close>

definition visits :: "event list \<Rightarrow> ident list" where
  "visits tr = concat (map (\<lambda>ev. case ev of HighlightObject k \<Rightarrow> [k] | _ \<Rightarrow> []) tr)"

section \<open>Static preview (animation-system.js, previewPath)\<close>




text \<open>The direct connections of a flow graph: \<open>(u, v)\<close> when the adjacency list of
  \<open>u\<close> has an entry to \<open>v\<close>.\<close>

definition edges :: "flow_graph \<Rightarrow> (ident \<times> ident) set" where
  "edges g = {(u, v). \<exists>c \<in> set (outgoing g u). edge_to c = v}"

section \<open>Path finder (animation-system.js, findPath)\<close>

text \<open>The inner \<open>for\<close> loop over the connections of the dequeued node: it returns the
  path as soon as a connection reaches \<open>toId\<close>, and otherwise pushes the targets that are
  not visited.\<close>

fun scan_connections ::
  "ident \<Rightarrow> ident set \<Rightarrow> ident list \<Rightarrow> edge list \<Rightarrow> (ident \<times> ident list) list
   \<Rightarrow> ident list + (ident \<times> ident list) list" where
  "scan_connections toId visited path [] queue = Inr queue"
| "scan_connections toId visited path (conn # conns) queue =
     (if edge_to conn = toId then Inl (path @ [toId])
      else scan_connections toId visited path conns
             (if edge_to conn \<notin> visited then queue @ [(edge_to conn, path @ [edge_to conn])]
              else queue))"

lemma scan_connections_Nil: "scan_connections t V p [] q = Inr q' \<Longrightarrow> q' = q"
  by simp

text \<open>The \<open>while (queue.length > 0)\<close> loop; \<open>None\<close> is the \<open>null\<close> returned when the
  queue runs empty.\<close>

function findPath_loop ::
  "flow_graph \<Rightarrow> ident \<Rightarrow> ident set \<Rightarrow> (ident \<times> ident list) list \<Rightarrow> ident list option" where
  "findPath_loop g toId visited [] = None"
| "findPath_loop g toId visited ((k, path) # queue) =
     (if k \<in> visited then findPath_loop g toId visited queue
      else case scan_connections toId (insert k visited) path (outgoing g k) queue of
             Inl found \<Rightarrow> Some found
           | Inr queue' \<Rightarrow> findPath_loop g toId (insert k visited) queue')"
  by pat_completeness auto
termination
proof (relation "inv_image (less_than <*lex*> less_than)
         (\<lambda>(g, t, V, q). (card (fst ` set g - V), length q))", goal_cases)
  case 1 show ?case by (intro wf_inv_image wf_lex_prod wf_less_than)
next
  case 2 then show ?case by simp
next
  case (3 g toId visited k path queue queue')
  show ?case
  proof (cases "outgoing g k")
    case Nil
    with 3 have "queue' = queue" by simp
    moreover have "card (fst ` set g - insert k visited) \<le> card (fst ` set g - visited)"
      by (intro card_mono) auto
    ultimately show ?thesis by auto
  next
    case (Cons c cs)
    then have "k \<in> fst ` set g" by (rule outgoing_key)
    with 3 have "fst ` set g - insert k visited \<subset> fst ` set g - visited" by auto
    then have "card (fst ` set g - insert k visited) < card (fst ` set g - visited)"
      by (intro psubset_card_mono) auto
    then show ?thesis by simp
  qed
qed

definition findPath :: "flow_graph \<Rightarrow> ident \<Rightarrow> ident \<Rightarrow> ident list option" where
  "findPath g fromId toId =
     (if fromId = toId then Some [fromId]
      else findPath_loop g toId {} [(fromId, [fromId])])"

section \<open>Regular expressions (the patterns of plantuml-parser.js)\<close>

text \<open>
  The parser's patterns use literals, the classes \<open>\w\<close>, \<open>\s\<close>, \<open>\S\<close>, \<open>[^"]\<close> and
  \<open>.\<close> under greedy \<open>+\<close> and \<open>*\<close>, the optional \<open>?\<close>, alternation, capture groups,
  \<open>^\<close> and \<open>$\<close>.  A backtracking matcher tries the alternatives in a fixed order and
  returns the first way to match.  \<open>rx_run\<close> lists all the ways to match from a position,
  in the order in which backtracking reaches them: each is the end position and the capture
  groups set so far.  The first element is what \<open>RegExp.prototype.exec\<close> finds there.
\<close>

datatype cls = Word | Space | NonSpace | NotQuote | Dot

datatype rx =
    Lit string
  | Many1 cls
  | Many0 cls
  | Opt rx
  | Seq "rx list"
  | Alt "rx list"
  | Grp nat rx
  | Bol
  | Eol

definition is_space :: "char \<Rightarrow> bool" where
  "is_space c = (c \<in> {CHR 0x09, CHR 0x0A, CHR 0x0B, CHR 0x0C, CHR 0x0D, CHR 0x20, CHR 0xA0})"

definition is_word :: "char \<Rightarrow> bool" where
  "is_word c = (c \<in> set ''abcdefghijklmnopqrstuvwxyzABCDEFGHIJKLMNOPQRSTUVWXYZ0123456789_'')"

fun in_cls :: "cls \<Rightarrow> char \<Rightarrow> bool" where
  "in_cls Word c = is_word c"
| "in_cls Space c = is_space c"
| "in_cls NonSpace c = (\<not> is_space c)"
| "in_cls NotQuote c = (c \<noteq> CHR 0x22)"
| "in_cls Dot c = (c \<noteq> CHR 0x0A \<and> c \<noteq> CHR 0x0D)"

type_synonym captures = "(nat \<times> string) list"
type_synonym mstate = "nat \<times> captures"

text \<open>The end positions of a greedy repetition of a class from position \<open>p\<close>, longest
  first, down to \<open>lo\<close> characters.\<close>

definition many :: "cls \<Rightarrow> nat \<Rightarrow> string \<Rightarrow> mstate \<Rightarrow> mstate list" where
  "many k lo s st =
     (let n = length (takeWhile (in_cls k) (drop (fst st) s))
      in map (\<lambda>i. (fst st + i, snd st)) (rev [lo ..< Suc n]))"

fun rx_run :: "rx \<Rightarrow> string \<Rightarrow> mstate \<Rightarrow> mstate list"
  and rx_seq :: "rx list \<Rightarrow> string \<Rightarrow> mstate \<Rightarrow> mstate list"
  and rx_alt :: "rx list \<Rightarrow> string \<Rightarrow> mstate \<Rightarrow> mstate list"
where
  "rx_run (Lit w) s st =
     (if take (length w) (drop (fst st) s) = w then [(fst st + length w, snd st)] else [])"
| "rx_run (Many1 k) s st = many k 1 s st"
| "rx_run (Many0 k) s st = many k 0 s st"
| "rx_run (Opt r) s st = rx_run r s st @ [st]"
| "rx_run (Seq rs) s st = rx_seq rs s st"
| "rx_run (Alt rs) s st = rx_alt rs s st"
| "rx_run (Grp i r) s st =
     map (\<lambda>st'. (fst st', AList.update i (take (fst st' - fst st) (drop (fst st) s)) (snd st')))
         (rx_run r s st)"
| "rx_run Bol s st = (if fst st = 0 then [st] else [])"
| "rx_run Eol s st = (if fst st = length s then [st] else [])"
| "rx_seq [] s st = [st]"
| "rx_seq (r # rs) s st = concat (map (rx_seq rs s) (rx_run r s st))"
| "rx_alt [] s st = []"
| "rx_alt (r # rs) s st = rx_run r s st @ rx_alt rs s st"

text \<open>\<open>line.match(regex)\<close> for a regex without the \<open>g\<close> flag: the first start
  position from which the pattern matches, and there the first way to match.  The result is
  the capture groups; \<open>None\<close> is \<open>null\<close>.\<close>

fun rx_search :: "rx \<Rightarrow> string \<Rightarrow> nat list \<Rightarrow> captures option" where
  "rx_search r s [] = None"
| "rx_search r s (p # ps) =
     (case rx_run r s (p, []) of [] \<Rightarrow> rx_search r s ps | st # _ \<Rightarrow> Some (snd st))"

definition rx_match :: "rx \<Rightarrow> string \<Rightarrow> captures option" where
  "rx_match r s = rx_search r s [0 ..< Suc (length s)]"

text \<open>\<open>match[i]\<close>: a group that took no part in the match is \<open>undefined\<close>.\<close>

definition group :: "captures \<Rightarrow> nat \<Rightarrow> ident" where
  "group m i = (case map_of m i of None \<Rightarrow> Undefined | Some w \<Rightarrow> Str w)"

section \<open>Parser (plantuml-parser.js)\<close>

datatype error = TypeError

record uml_object =
  obj_id :: ident
  obj_name :: ident
  obj_type :: string
  obj_x :: real
  obj_y :: real
  obj_width :: real
  obj_height :: real

record parser =
  objects :: "(ident \<times> uml_object) list"
  parser_connections :: "connection list"

record diagram =
  diagram_objects :: "uml_object list"
  diagram_connections :: "connection list"

definition reset :: "parser \<Rightarrow> parser" where
  "reset ps = ps\<lparr>objects := [], parser_connections := []\<rparr>"

subsection \<open>Strings\<close>

definition trim :: "string \<Rightarrow> string" where
  "trim s = rev (dropWhile is_space (rev (dropWhile is_space s)))"

text \<open>\<open>text.split('\n')\<close>: the pieces between the line feeds, of which there is always
  at least one.\<close>

fun split_lines :: "string \<Rightarrow> string list" where
  "split_lines [] = [[]]"
| "split_lines (c # cs) =
     (if c = CHR 0x0A then [] # split_lines cs
      else case split_lines cs of l # ls \<Rightarrow> (c # l) # ls | [] \<Rightarrow> [[c]])"

definition startsWith :: "string \<Rightarrow> string \<Rightarrow> bool" where
  "startsWith s w = (take (length w) s = w)"

text \<open>Decimal digits of a number, as a template literal prints \<open>this.connections.length\<close>.\<close>

fun string_of_nat :: "nat \<Rightarrow> string" where
  "string_of_nat n =
     (if n < 10 then [char_of (48 + n)]
      else string_of_nat (n div 10) @ [char_of (48 + n mod 10)])"

subsection \<open>addObject, addConnection\<close>

text \<open>\<open>name.length\<close> raises a \<open>TypeError\<close> when \<open>name\<close> is \<open>undefined\<close> or
  \<open>null\<close>; it is evaluated only when the id is new.\<close>

definition addObject :: "ident \<Rightarrow> ident \<Rightarrow> string \<Rightarrow> parser \<Rightarrow> error + parser" where
  "addObject i name type ps =
     (if map_of (objects ps) i \<noteq> None then Inr ps
      else case name of
             Str n \<Rightarrow>
               Inr (ps\<lparr>objects := AList.update i
                      \<lparr>obj_id = i, obj_name = js_or name i, obj_type = type, obj_x = 0, obj_y = 0,
                       obj_width = max (real (length n * 8 + 40)) 120, obj_height = 60\<rparr>
                      (objects ps)\<rparr>)
           | _ \<Rightarrow> Inl TypeError)"

definition getArrowStyle :: "string \<Rightarrow> string \<Rightarrow> style" where
  "getArrowStyle arrow ctype =
     (let base = \<lparr>strokeWidth = 2, strokeDasharray = ''none''\<rparr>;
          s1 = (if arrow = ''-->'' \<or> arrow = ''<--'' then base\<lparr>strokeDasharray := ''5,5''\<rparr>
                else if arrow = ''->>'' \<or> arrow = ''<<-'' then base\<lparr>strokeWidth := 3\<rparr>
                else if arrow = ''..>'' \<or> arrow = ''<..''
                  then base\<lparr>strokeDasharray := ''2,3'', strokeWidth := 1.5\<rparr>
                else if arrow = ''...'' then base\<lparr>strokeDasharray := ''1,2'', strokeWidth := 1\<rparr>
                else if arrow = [CHR 0x5C, CHR 0x5C]
                  then base\<lparr>strokeDasharray := ''10,5'', strokeWidth := 2.5\<rparr>
                else if arrow = ''||'' then base\<lparr>strokeWidth := 4\<rparr>
                else base)
      in if ctype = ''dashed'' then s1\<lparr>strokeDasharray := ''5,5''\<rparr>
         else if ctype = ''dotted''
           then s1\<lparr>strokeDasharray := ''2,3'', strokeWidth := max (strokeWidth s1 * 0.8) 1\<rparr>
         else if ctype = ''dotted_line''
           then s1\<lparr>strokeDasharray := ''1,2'', strokeWidth := max (strokeWidth s1 * 0.6) 1\<rparr>
         else if ctype = ''double'' then s1\<lparr>strokeWidth := max (strokeWidth s1 * 1.5) 3\<rparr>
         else if ctype = ''break''
           then s1\<lparr>strokeDasharray := ''10,5'', strokeWidth := max (strokeWidth s1 * 1.2) 2.5\<rparr>
         else if ctype = ''parallel'' then s1\<lparr>strokeWidth := max (strokeWidth s1 * 2) 4\<rparr>
         else s1)"

text \<open>Sequencing of calls that may raise.\<close>

definition bind :: "error + 'a \<Rightarrow> ('a \<Rightarrow> error + 'b) \<Rightarrow> error + 'b" where
  "bind r f = (case r of Inl e \<Rightarrow> Inl e | Inr x \<Rightarrow> f x)"

definition addConnection :: "ident \<Rightarrow> ident \<Rightarrow> string \<Rightarrow> string \<Rightarrow> string \<Rightarrow> parser \<Rightarrow> error + parser" where
  "addConnection fromId toId label arrow ctype ps =
     bind (addObject fromId fromId ''participant'' ps) (\<lambda>ps1.
     bind (addObject toId toId ''participant'' ps1) (\<lambda>ps2.
       Inr (ps2\<lparr>parser_connections := parser_connections ps2 @
              [\<lparr>conn_id = to_string fromId @ ''-'' @ to_string toId @ ''-''
                           @ string_of_nat (length (parser_connections ps2)),
                conn_from = fromId, conn_to = toId, conn_label = label,
                arrowType = arrow, connectionType = Some ctype,
                conn_style = getArrowStyle arrow ctype, conn_command = None\<rparr>]\<rparr>)))"

subsection \<open>The pattern catalog\<close>

text \<open>\<open>(\w+|\S+)\<close>\<close>

definition tok :: rx where
  "tok = Alt [Many1 Word, Many1 NonSpace]"

text \<open>\<open>/^kw\s+"?([^"]+)"?\s+as\s+(\w+)|^kw\s+(\w+)/\<close>\<close>

definition declaration_rx :: "string \<Rightarrow> rx" where
  "declaration_rx kw =
     Alt [Seq [Bol, Lit kw, Many1 Space, Opt (Lit [CHR 0x22]), Grp 1 (Many1 NotQuote),
               Opt (Lit [CHR 0x22]), Many1 Space, Lit ''as'', Many1 Space, Grp 2 (Many1 Word)],
          Seq [Bol, Lit kw, Many1 Space, Grp 3 (Many1 Word)]]"

definition declaration_patterns :: "(rx \<times> string) list" where
  "declaration_patterns =
     map (\<lambda>kw. (declaration_rx kw, kw))
       [''actor'', ''participant'', ''entity'', ''database'', ''boundary'', ''control'',
        ''collections'', ''queue'']"

text \<open>\<open>/(\w+|\S+)\s*(m)\s*(\w+|\S+)\s*:\s*(.*)/\<close> and \<open>/(\w+|\S+)\s*(m)\s*(\w+|\S+)$/\<close>,
  where \<open>m\<close> is the alternation of the given markers.\<close>

definition labelled_rx :: "string list \<Rightarrow> rx" where
  "labelled_rx ms =
     Seq [Grp 1 tok, Many0 Space, Grp 2 (Alt (map Lit ms)), Many0 Space, Grp 3 tok,
          Many0 Space, Lit '':'', Many0 Space, Grp 4 (Many0 Dot)]"

definition unlabelled_rx :: "string list \<Rightarrow> rx" where
  "unlabelled_rx ms =
     Seq [Grp 1 tok, Many0 Space, Grp 2 (Alt (map Lit ms)), Many0 Space, Grp 3 tok, Eol]"

text \<open>The four patterns with which \<open>parseObjectDefinition\<close> looks for entities in
  connection and activation lines.\<close>

definition reference_patterns :: "rx list" where
  "reference_patterns =
     [labelled_rx [''->'', ''-->'', ''<-'', ''<--'', ''->>'', ''<<-'', ''..>'', ''..'', ''<..'',
                   ''...'', ''<...'', [CHR 0x5C, CHR 0x5C], ''|'', ''o|'', ''|'', ''o''],
      unlabelled_rx [''->'', ''-->'', ''<-'', ''<--'', ''->>'', ''<<-''],
      Seq [Bol, Lit ''activate'', Many1 Space, Grp 1 (Many1 Word)],
      Seq [Bol, Lit ''deactivate'', Many1 Space, Grp 1 (Many1 Word)]]"

text \<open>\<open>/^note\s+(left|right|over)\s+(\w+)\s*:\s*(.*)|^note\s+(left|right)\s*:\s*(.*)/\<close>\<close>

definition note_rx :: rx where
  "note_rx =
     Alt [Seq [Bol, Lit ''note'', Many1 Space, Grp 1 (Alt [Lit ''left'', Lit ''right'', Lit ''over'']),
               Many1 Space, Grp 2 (Many1 Word), Many0 Space, Lit '':'', Many0 Space,
               Grp 3 (Many0 Dot)],
          Seq [Bol, Lit ''note'', Many1 Space, Grp 4 (Alt [Lit ''left'', Lit ''right'']),
               Many0 Space, Lit '':'', Many0 Space, Grp 5 (Many0 Dot)]]"

record conn_pattern =
  cp_regex :: rx
  cp_type :: string
  cp_reverse :: bool
  cp_label :: ident

definition labelled :: "string \<Rightarrow> string \<Rightarrow> bool \<Rightarrow> conn_pattern" where
  "labelled m t r = \<lparr>cp_regex = labelled_rx [m], cp_type = t, cp_reverse = r, cp_label = Undefined\<rparr>"

definition unlabelled :: "string \<Rightarrow> string \<Rightarrow> bool \<Rightarrow> conn_pattern" where
  "unlabelled m t r = \<lparr>cp_regex = unlabelled_rx [m], cp_type = t, cp_reverse = r, cp_label = Str []\<rparr>"

definition connectionPatterns :: "conn_pattern list" where
  "connectionPatterns =
     [labelled ''->'' ''solid'' False,
      labelled ''-->'' ''dashed'' False,
      labelled ''<-'' ''reverse_solid'' True,
      labelled ''<--'' ''reverse_dashed'' True,
      labelled ''->>'' ''double'' False,
      labelled ''<<-'' ''reverse_double'' True,
      labelled ''..>'' ''dotted'' False,
      labelled ''<..'' ''reverse_dotted'' True,
      labelled ''...'' ''dotted_line'' False,
      labelled [CHR 0x5C, CHR 0x5C] ''break'' False,
      labelled ''||'' ''parallel'' False,
      labelled ''o|'' ''circle_start'' False,
      labelled ''|o'' ''circle_end'' False,
      unlabelled ''->'' ''solid'' False,
      unlabelled ''-->'' ''dashed'' False,
      unlabelled ''<-'' ''reverse_solid'' True,
      unlabelled ''<--'' ''reverse_dashed'' True]"

text \<open>\<open>/^(activate|deactivate)\s+(\w+)/\<close>\<close>

definition activate_rx :: rx where
  "activate_rx =
     Seq [Bol, Grp 1 (Alt [Lit ''activate'', Lit ''deactivate'']), Many1 Space, Grp 2 (Many1 Word)]"

subsection \<open>parseObjectDefinition\<close>

text \<open>Each of the three loops returns \<open>Some\<close> of the outcome when a pattern matched and
  the function returned, and \<open>None\<close> when it fell through to the next part.\<close>

fun declaration_loop :: "(rx \<times> string) list \<Rightarrow> string \<Rightarrow> parser \<Rightarrow> (error + parser) option" where
  "declaration_loop [] line ps = None"
| "declaration_loop ((regex, type) # patterns) line ps =
     (case rx_match regex line of
        Some m \<Rightarrow> Some (addObject (js_or (group m 2) (group m 3)) (js_or (group m 1) (group m 3)) type ps)
      | None \<Rightarrow> declaration_loop patterns line ps)"

fun reference_loop :: "rx list \<Rightarrow> string \<Rightarrow> parser \<Rightarrow> (error + parser) option" where
  "reference_loop [] line ps = None"
| "reference_loop (pattern # patterns) line ps =
     (case rx_match pattern line of
        Some m \<Rightarrow>
          (if truthy (group m 1) \<and> truthy (group m 3)
           then Some (bind (addObject (group m 1) (group m 1) ''participant'' ps)
                           (addObject (group m 3) (group m 3) ''participant''))
           else if truthy (group m 1) \<and> \<not> truthy (group m 3)
           then Some (addObject (group m 1) (group m 1) ''participant'' ps)
           else reference_loop patterns line ps)
      | None \<Rightarrow> reference_loop patterns line ps)"

definition parseObjectDefinition :: "string \<Rightarrow> parser \<Rightarrow> error + parser" where
  "parseObjectDefinition line ps =
     (case declaration_loop declaration_patterns line ps of
        Some r \<Rightarrow> r
      | None \<Rightarrow>
          (case reference_loop reference_patterns line ps of
             Some r \<Rightarrow> r
           | None \<Rightarrow>
               (case rx_match note_rx line of
                  Some m \<Rightarrow>
                    (if truthy (group m 2)
                     then addObject (group m 2) (group m 2) ''participant'' ps
                     else Inr ps)
                | None \<Rightarrow> Inr ps)))"

subsection \<open>parseConnection\<close>

text \<open>\<open>(label || pattern.label || '')\<close> is a string in every case.\<close>

definition label_of :: "ident \<Rightarrow> ident \<Rightarrow> string" where
  "label_of label plabel = (case js_or (js_or label plabel) (Str []) of Str s \<Rightarrow> s | _ \<Rightarrow> [])"

fun connection_loop :: "conn_pattern list \<Rightarrow> string \<Rightarrow> parser \<Rightarrow> (error + parser) option" where
  "connection_loop [] line ps = None"
| "connection_loop (pattern # patterns) line ps =
     (case rx_match (cp_regex pattern) line of
        Some m \<Rightarrow>
          (let fromId = group m 1; arrow = group m 2; toId = group m 3; label = group m 4;
               actualFrom = (if cp_reverse pattern then toId else fromId);
               actualTo = (if cp_reverse pattern then fromId else toId)
           in Some (addConnection actualFrom actualTo (trim (label_of label (cp_label pattern)))
                      (case arrow of Str a \<Rightarrow> a | _ \<Rightarrow> ''->'') (cp_type pattern) ps))
      | None \<Rightarrow> connection_loop patterns line ps)"

definition parseConnection :: "string \<Rightarrow> parser \<Rightarrow> error + parser" where
  "parseConnection line ps =
     (case connection_loop connectionPatterns line ps of
        Some r \<Rightarrow> r
      | None \<Rightarrow>
          (case rx_match activate_rx line of
             Some m \<Rightarrow>
               Inr (ps\<lparr>parser_connections := parser_connections ps @
                      [\<lparr>conn_id = ''command-'' @ string_of_nat (length (parser_connections ps)),
                        conn_from = Null, conn_to = Null,
                        conn_label = to_string (group m 1) @ '' '' @ to_string (group m 2),
                        arrowType = ''command'', connectionType = None,
                        conn_style = \<lparr>strokeWidth = 1, strokeDasharray = ''none''\<rparr>,
                        conn_command = Some (to_string (group m 1), to_string (group m 2))\<rparr>]\<rparr>)
           | None \<Rightarrow> Inr ps))"

subsection \<open>parse\<close>

text \<open>\<open>lines.forEach(f)\<close> for an \<open>f\<close> that may raise: the first error ends the loop.\<close>

fun forEach :: "('a \<Rightarrow> 's \<Rightarrow> error + 's) \<Rightarrow> 'a list \<Rightarrow> 's \<Rightarrow> error + 's" where
  "forEach f [] s = Inr s"
| "forEach f (x # xs) s = bind (f x s) (forEach f xs)"

definition keep_line :: "string \<Rightarrow> bool" where
  "keep_line line = (line \<noteq> [] \<and> \<not> startsWith line ''@'' \<and> \<not> startsWith line [CHR 0x27])"

definition source_lines :: "string \<Rightarrow> string list" where
  "source_lines text = filter keep_line (map trim (split_lines text))"

text \<open>\<open>plantumlText.split\<close> raises a \<open>TypeError\<close> when the argument is \<open>null\<close> or
  \<open>undefined\<close>.  The parser is reset first, so the result depends on the text alone.\<close>

definition parse_from :: "parser \<Rightarrow> ident \<Rightarrow> error + diagram" where
  "parse_from ps0 plantumlText =
     (case plantumlText of
        Str text \<Rightarrow>
          bind (forEach parseObjectDefinition (source_lines text) (reset ps0)) (\<lambda>ps1.
          bind (forEach parseConnection (source_lines text) ps1) (\<lambda>ps2.
            Inr \<lparr>diagram_objects = map snd (objects ps2),
                 diagram_connections = parser_connections ps2\<rparr>))
      | _ \<Rightarrow> Inl TypeError)"

definition parse :: "ident \<Rightarrow> error + diagram" where
  "parse plantumlText = parse_from \<lparr>objects = [], parser_connections = []\<rparr> plantumlText"

section \<open>Auto-layout (plantuml-parser.js, autoLayout)\<close>

text \<open>JavaScript numbers are modelled as real numbers: no rounding.  \<open>place\<close> is the
  callback of \<open>objects.forEach((obj, index) => ...)\<close>; the objects are updated in place and
  the same array is returned, which is the updated list here.\<close>

definition place :: "nat \<Rightarrow> real \<Rightarrow> real \<Rightarrow> real \<Rightarrow> real \<Rightarrow> nat \<Rightarrow> uml_object \<Rightarrow> uml_object" where
  "place cols cellWidth cellHeight canvasWidth canvasHeight index obj =
     (let padding = 50;
          col = index mod cols;
          row = index div cols;
          x = padding + real col * cellWidth + cellWidth / 2 - obj_width obj / 2;
          y = padding + real row * cellHeight + cellHeight / 2 - obj_height obj / 2
      in obj\<lparr>obj_x := max padding (min x (canvasWidth - obj_width obj - padding)),
             obj_y := max padding (min y (canvasHeight - obj_height obj - padding))\<rparr>)"

text \<open>\<open>Math.ceil(Math.sqrt(objects.length))\<close> and \<open>Math.ceil(objects.length / cols)\<close>\<close>

definition grid_cols :: "nat \<Rightarrow> nat" where
  "grid_cols n = nat \<lceil>sqrt (real n)\<rceil>"

definition grid_rows :: "nat \<Rightarrow> nat" where
  "grid_rows n = nat \<lceil>real n / real (grid_cols n)\<rceil>"

definition autoLayout :: "uml_object list \<Rightarrow> real \<Rightarrow> real \<Rightarrow> uml_object list" where
  "autoLayout objs canvasWidth canvasHeight =
     (let padding = 50;
          usableWidth = canvasWidth - padding * 2;
          usableHeight = canvasHeight - padding * 2
      in if length objs = 0 then objs
         else
           (let cols = grid_cols (length objs);
                rows = grid_rows (length objs);
                cellWidth = usableWidth / real cols;
                cellHeight = usableHeight / real rows
            in map (\<lambda>(index, obj). place cols cellWidth cellHeight canvasWidth canvasHeight index obj)
                   (enumerate 0 objs)))"

section \<open>Capture groups of a pattern\<close>

text \<open>Syntactic facts about a pattern, used to show which groups a successful match has
  set: the groups that occur in it, whether every match consumes at least one character,
  and whether every match sets group \<open>i\<close> to a non-empty string.\<close>

fun groups_of :: "rx \<Rightarrow> nat set"
  and groups_of_list :: "rx list \<Rightarrow> nat set"
where
  "groups_of (Lit w) = {}"
| "groups_of (Many1 k) = {}"
| "groups_of (Many0 k) = {}"
| "groups_of (Opt r) = groups_of r"
| "groups_of (Seq rs) = groups_of_list rs"
| "groups_of (Alt rs) = groups_of_list rs"
| "groups_of (Grp i r) = insert i (groups_of r)"
| "groups_of Bol = {}"
| "groups_of Eol = {}"
| "groups_of_list [] = {}"
| "groups_of_list (r # rs) = groups_of r \<union> groups_of_list rs"

fun consumes :: "rx \<Rightarrow> bool"
  and consumes_some :: "rx list \<Rightarrow> bool"
  and consumes_all :: "rx list \<Rightarrow> bool"
where
  "consumes (Lit w) = (w \<noteq> [])"
| "consumes (Many1 k) = True"
| "consumes (Many0 k) = False"
| "consumes (Opt r) = False"
| "consumes (Seq rs) = consumes_some rs"
| "consumes (Alt rs) = consumes_all rs"
| "consumes (Grp i r) = consumes r"
| "consumes Bol = False"
| "consumes Eol = False"
| "consumes_some [] = False"
| "consumes_some (r # rs) = (consumes r \<or> consumes_some rs)"
| "consumes_all [] = True"
| "consumes_all (r # rs) = (consumes r \<and> consumes_all rs)"

fun sets_group :: "rx \<Rightarrow> nat \<Rightarrow> bool"
  and sets_group_some :: "rx list \<Rightarrow> nat \<Rightarrow> bool"
  and sets_group_all :: "rx list \<Rightarrow> nat \<Rightarrow> bool"
where
  "sets_group (Lit w) i = False"
| "sets_group (Many1 k) i = False"
| "sets_group (Many0 k) i = False"
| "sets_group (Opt r) i = False"
| "sets_group (Seq rs) i = sets_group_some rs i"
| "sets_group (Alt rs) i = sets_group_all rs i"
| "sets_group (Grp j r) i = (if i = j then consumes r else sets_group r i)"
| "sets_group Bol i = False"
| "sets_group Eol i = False"
| "sets_group_some [] i = False"
| "sets_group_some (r # rs) i = ((sets_group r i \<and> i \<notin> groups_of_list rs) \<or> sets_group_some rs i)"
| "sets_group_all [] i = True"
| "sets_group_all (r # rs) i = (sets_group r i \<and> sets_group_all rs i)"

section \<open>First write wins\<close>

text \<open>\<open>keeps ps ps'\<close>: every entity of \<open>ps\<close> is in \<open>ps'\<close> under the same id with the
  same record; the ids stay distinct; every record stays filed under its own id.\<close>

definition ids_agree :: "parser \<Rightarrow> bool" where
  "ids_agree ps = (\<forall>i ob. map_of (objects ps) i = Some ob \<longrightarrow> obj_id ob = i)"

definition keeps :: "parser \<Rightarrow> parser \<Rightarrow> bool" where
  "keeps ps ps' =
     ((\<forall>i ob. map_of (objects ps) i = Some ob \<longrightarrow> map_of (objects ps') i = Some ob)
      \<and> (distinct (map fst (objects ps)) \<longrightarrow> distinct (map fst (objects ps')))
      \<and> (ids_agree ps \<longrightarrow> ids_agree ps'))"

section \<open>Paths in the flow graph\<close>

text \<open>\<open>connected g p\<close>: every consecutive pair of \<open>p\<close> is joined by a direct connection.
  \<open>path_between g x y p\<close>: \<open>p\<close> is such a sequence from \<open>x\<close> to \<open>y\<close>.\<close>

fun connected :: "flow_graph \<Rightarrow> ident list \<Rightarrow> bool" where
  "connected g (u # v # rest) = (v \<in> edge_to ` set (outgoing g u) \<and> connected g (v # rest))"
| "connected g [u] = True"
| "connected g [] = True"

definition path_between :: "flow_graph \<Rightarrow> ident \<Rightarrow> ident \<Rightarrow> ident list \<Rightarrow> bool" where
  "path_between g x y p = (p \<noteq> [] \<and> hd p = x \<and> last p = y \<and> connected g p)"

text \<open>The same paths, built edge by edge from the start.\<close>

inductive walk :: "flow_graph \<Rightarrow> ident \<Rightarrow> ident list \<Rightarrow> ident \<Rightarrow> bool" for g s where
  walk_start: "walk g s [s] s"
| walk_step: "walk g s p u \<Longrightarrow> (u, v) \<in> edges g \<Longrightarrow> walk g s (p @ [v]) v"

text \<open>The state of the search between two iterations of the \<open>while\<close> loop: every queued
  path is a path of the graph from the start; the queue is ordered by path length and its
  lengths differ by at most one; no visited entity has a connection to the target; the
  start is visited or queued; and every unvisited successor of a visited entity is queued
  with a path at most one longer than any path to that entity.\<close>

definition bfs_inv ::
  "flow_graph \<Rightarrow> ident \<Rightarrow> ident \<Rightarrow> ident set \<Rightarrow> (ident \<times> ident list) list \<Rightarrow> bool" where
  "bfs_inv g s t V Q =
     ((\<forall>e \<in> set Q. walk g s (snd e) (fst e))
      \<and> sorted (map (\<lambda>e. length (snd e)) Q)
      \<and> (\<forall>e \<in> set Q. \<forall>e' \<in> set Q. length (snd e) \<le> length (snd e') + 1)
      \<and> (\<forall>v \<in> V. (v, t) \<notin> edges g)
      \<and> (s \<in> V \<or> (s, [s]) \<in> set Q)
      \<and> (\<forall>u \<in> V. \<forall>w. (u, w) \<in> edges g \<and> w \<notin> V \<longrightarrow>
            (\<exists>p'. (w, p') \<in> set Q \<and> (\<forall>q'. walk g s q' u \<longrightarrow> length p' \<le> length q' + 1))))"

section \<open>Flow animation on the event loop\<close>

text \<open>
  \<open>startFlowAnimation\<close> and \<open>animateFlow\<close> are \<open>async\<close> functions: at every \<open>await\<close> of
  a delay the run is suspended until a timer fires, and other handlers can run in between.
  The model below makes the suspension points explicit.  A suspended run is the timer it
  waits for, with what it will do when the timer fires (\<open>kont\<close>); the invocations of
  \<open>animateFlow\<close> that wait for a nested invocation are a stack of frames, innermost first,
  with the call of \<open>startFlowAnimation\<close> below the last frame.  JavaScript runs a timer
  callback, and all the promise continuations it triggers, to completion before the next
  timer or user event: \<open>resume\<close> runs a continuation up to the next delay.  Delays are in
  milliseconds.  Every command is logged with the number of the run that issued it; the
  numbers are not in the code.
\<close>

text \<open>A frame: the connections still to animate after the current one,
  \<open>outgoingConnections.length\<close>, and the visited set of the invocation.\<close>

datatype frame = Frame "edge list" nat "ident set"

datatype kont =
    AfterHighlight ident "ident set" "frame list"
  | AfterTerminal "frame list"
  | FlowTimer edge "edge list" nat "ident set" "frame list"
  | HoldTimer edge "edge list" nat "ident set" "frame list"
  | AfterBranch "edge list" nat "ident set" "frame list"

record machine =
  eng :: engine
  now :: real
  timers :: "(real \<times> nat \<times> kont) list"
  log :: "(nat \<times> event) list"

text \<open>The constructor of \<open>AnimationSystem\<close>.\<close>

definition AnimationSystem :: "canvas \<Rightarrow> engine" where
  "AnimationSystem cv =
     \<lparr>canvas = cv, animationQueue = [], isAnimating = False, animationSpeed = 1,
      connections = [], flowGraph = []\<rparr>"

text \<open>\<open>setTimeout(..., ms / this.animationSpeed)\<close>\<close>

definition set_timer :: "real \<Rightarrow> nat \<Rightarrow> kont \<Rightarrow> machine \<Rightarrow> machine" where
  "set_timer ms r k m =
     m\<lparr>timers := timers m @ [(now m + ms / animationSpeed (eng m), r, k)]\<rparr>"

definition command :: "nat \<Rightarrow> event \<Rightarrow> machine \<Rightarrow> machine" where
  "command r ev m =
     m\<lparr>eng := (eng m)\<lparr>canvas := apply_event ev (canvas (eng m))\<rparr>, log := log m @ [(r, ev)]\<rparr>"

text \<open>
  \<open>enter\<close>: a call \<open>animateFlow(objectId, visitedObjects)\<close>, up to its first delay.
  \<open>leave\<close>: an invocation of \<open>animateFlow\<close> has returned; the caller goes on after its
  \<open>await\<close>, and when the caller is \<open>startFlowAnimation\<close> its \<open>finally\<close> block clears the
  flag.  \<open>branches\<close>: the head of the \<open>for\<close> loop over the outgoing connections, with
  \<open>animateConnection\<close> up to its first timer.
\<close>

function enter :: "nat \<Rightarrow> ident \<Rightarrow> ident set \<Rightarrow> frame list \<Rightarrow> machine \<Rightarrow> machine"
  and leave :: "nat \<Rightarrow> frame list \<Rightarrow> machine \<Rightarrow> machine"
  and branches :: "nat \<Rightarrow> edge list \<Rightarrow> nat \<Rightarrow> ident set \<Rightarrow> frame list \<Rightarrow> machine \<Rightarrow> machine"
where
  "enter r objectId visitedObjects stack m =
     (if \<not> isAnimating (eng m) \<or> objectId \<in> visitedObjects then leave r stack m
      else set_timer 300 r (AfterHighlight objectId (insert objectId visitedObjects) stack)
             (command r (HighlightObject objectId) m))"
| "leave r [] m = m\<lparr>eng := (eng m)\<lparr>isAnimating := False\<rparr>\<rparr>"
| "leave r (Frame cs n visitedObjects # stack) m =
     (if n > 1 then set_timer 200 r (AfterBranch cs n visitedObjects stack) m
      else branches r cs n visitedObjects stack m)"
| "branches r [] n visitedObjects stack m = leave r stack m"
| "branches r (c # cs) n visitedObjects stack m =
     (if \<not> isAnimating (eng m) then leave r stack m
      else set_timer 600 r (FlowTimer c cs n visitedObjects stack)
             (command r (HighlightConnection (connectionId c)) m))"
  by pat_completeness auto
termination
  by (relation "measure (\<lambda>x. case x of
        Inl (r, k, V, stack, m) \<Rightarrow> 3 * length stack + 2
      | Inr (Inl (r, stack, m)) \<Rightarrow> 3 * length stack + 1
      | Inr (Inr (r, cs, n, V, stack, m)) \<Rightarrow> 3 * length stack + 2)") auto

text \<open>A timer fires.\<close>

fun resume :: "nat \<Rightarrow> kont \<Rightarrow> machine \<Rightarrow> machine" where
  "resume r (AfterHighlight objectId visitedObjects stack) m =
     (if \<not> isAnimating (eng m) then leave r stack m
      else case outgoing (flowGraph (eng m)) objectId of
             [] \<Rightarrow> set_timer 500 r (AfterTerminal stack) m
           | c # cs \<Rightarrow> branches r (c # cs) (length (c # cs)) visitedObjects stack m)"
| "resume r (AfterTerminal stack) m = leave r stack m"
| "resume r (FlowTimer c cs n visitedObjects stack) m =
     set_timer 100 r (HoldTimer c cs n visitedObjects stack) m"
| "resume r (HoldTimer c cs n visitedObjects stack) m =
     (let m1 = (if isAnimating (eng m)
                then command r (RemoveConnectionHighlight (connectionId c)) m else m)
      in if \<not> isAnimating (eng m1) then leave r stack m1
         else enter r (edge_to c) visitedObjects (Frame cs n visitedObjects # stack) m1)"
| "resume r (AfterBranch cs n visitedObjects stack) m = branches r cs n visitedObjects stack m"

text \<open>A call of \<open>startFlowAnimation(startObjectId)\<close>, up to its first delay; \<open>r\<close> numbers
  the run it starts.\<close>

definition start :: "nat \<Rightarrow> ident \<Rightarrow> machine \<Rightarrow> machine" where
  "start r startObjectId m =
     (let e1 = (if isAnimating (eng m) then stopAnimation (eng m) else eng m);
          m1 = m\<lparr>eng := e1\<lparr>isAnimating := True\<rparr>\<rparr>
      in enter r startObjectId {} [] (command r ClearAllHighlights m1))"

text \<open>The event loop.  \<open>next_timer\<close> is the pending timer that fires first: the least due
  time, and among equal due times the one set first.  A user event at time \<open>t\<close> is handled
  when no timer is due before or at \<open>t\<close>; \<open>None\<close> is a schedule that cannot happen.\<close>

fun next_timer :: "(real \<times> nat \<times> kont) list \<Rightarrow> (real \<times> nat \<times> kont) option" where
  "next_timer [] = None"
| "next_timer (t # ts) =
     (case next_timer ts of
        None \<Rightarrow> Some t
      | Some t' \<Rightarrow> if fst t' < fst t then Some t' else Some t)"

datatype loop_event = Fire | Click real nat ident

fun step :: "loop_event \<Rightarrow> machine \<Rightarrow> machine option" where
  "step Fire m =
     (case next_timer (timers m) of
        None \<Rightarrow> None
      | Some (due, r, k) \<Rightarrow>
          Some (resume r k (m\<lparr>now := due, timers := remove1 (due, r, k) (timers m)\<rparr>)))"
| "step (Click t r startObjectId) m =
     (if now m \<le> t \<and> (\<forall>tm \<in> set (timers m). t < fst tm)
      then Some (start r startObjectId (m\<lparr>now := t\<rparr>)) else None)"

fun run :: "loop_event list \<Rightarrow> machine \<Rightarrow> machine option" where
  "run [] m = Some m"
| "run (ev # evs) m = (case step ev m of None \<Rightarrow> None | Some m' \<Rightarrow> run evs m')"

text \<open>The runs that are suspended on a timer.\<close>

definition active_runs :: "machine \<Rightarrow> nat list" where
  "active_runs m = remdups (map (\<lambda>tm. fst (snd tm)) (timers m))"

text \<open>A fixture: the diagram \<open>A -> B\<close> parsed, rendered (two object elements and one
  connection line) and handed to a new engine, at time 0 with no timer pending.\<close>

definition machine_AB :: machine where
  "machine_AB =
     (let conns = (case parse (Str ''A -> B'') of Inr d \<Rightarrow> diagram_connections d | Inl err \<Rightarrow> []);
          cv = \<lparr>objectElements = [''A'', ''B''], lineElements = [''A-B-0''],
                objectClasses = [], lineClasses = [],
                lineStyles = [(''A-B-0'',
                  \<lparr>ls_stroke = [], ls_strokeWidth = Some 2, ls_markerEnd = [], ls_filter = [],
                   ls_dasharray = [], ls_dashoffset = [], ls_transition = []\<rparr>)],
                canvas_connections = conns\<rparr>
      in \<lparr>eng = initialize conns (AnimationSystem cv), now = 0, timers = [], log = []\<rparr>)"

section \<open>Flow graph: sum of the adjacency lists\<close>

lemma map_of_update_same: "map_of (AList.update k v g) k = Some v"
  by (simp add: update_conv')

lemma adjacency_total_update_new:
  "map_of g k = None \<Longrightarrow> adjacency_total (AList.update k es g) = adjacency_total g + length es"
  by (induction g) (auto simp: adjacency_total_def)

lemma adjacency_total_update_old:
  "map_of g k = Some es0 \<Longrightarrow> distinct (map fst g) \<Longrightarrow>
   adjacency_total (AList.update k (es0 @ es) g) = adjacency_total g + length es"
proof (induction g)
  case Nil then show ?case by simp
next
  case (Cons p g)
  show ?case
  proof (cases "fst p = k")
    case True
    with Cons.prems show ?thesis by (cases p) (auto simp: adjacency_total_def)
  next
    case False
    with Cons show ?thesis by (cases p) (auto simp: adjacency_total_def)
  qed
qed

lemma add_edge_total:
  assumes "distinct (map fst g)"
  shows "adjacency_total (add_edge c g) = adjacency_total g + 1"
proof (cases "map_of g (conn_from c)")
  case None
  have d: "distinct (map fst (AList.update (conn_from c) [] g))"
    using assms by (simp add: distinct_update)
  have t: "adjacency_total (AList.update (conn_from c) [] g) = adjacency_total g"
    using None by (simp add: adjacency_total_update_new)
  show ?thesis
    using None d t
      adjacency_total_update_old [of "AList.update (conn_from c) [] g" "conn_from c" "[]" "[edge_of c]"]
    by (simp add: add_edge_def map_of_update_same)
next
  case (Some es)
  then show ?thesis
    using assms adjacency_total_update_old [of g "conn_from c" es "[edge_of c]"]
    by (simp add: add_edge_def)
qed

lemma add_edge_distinct: "distinct (map fst g) \<Longrightarrow> distinct (map fst (add_edge c g))"
  by (auto simp: add_edge_def Let_def distinct_update split: option.splits)

lemma fold_add_edge_total:
  "distinct (map fst g) \<Longrightarrow>
   adjacency_total (fold add_edge cs g) = adjacency_total g + length cs
   \<and> distinct (map fst (fold add_edge cs g))"
proof (induction cs arbitrary: g)
  case Nil then show ?case by simp
next
  case (Cons c cs)
  from Cons.prems have "distinct (map fst (add_edge c g))" by (rule add_edge_distinct)
  from Cons.IH [OF this] Cons.prems show ?case by (simp add: add_edge_total)
qed

text \<open>
  C3 (as the code has it).  \<open>initialize\<close> hands the whole stored sequence to
  \<open>buildFlowGraph\<close>, which filters nothing: every stored record, command markers
  included, contributes one adjacency entry (a command marker under the key \<open>null\<close>).
  So the sum of the lengths of the adjacency lists is the number of non-command connections
  plus the number of command markers, that is, the length of the stored sequence.
\<close>

theorem adjacency_total_buildFlowGraph:
  "adjacency_total (flowGraph (initialize cs e))
     = length (filter (Not \<circ> is_command) cs) + length (filter is_command cs)"
  using fold_add_edge_total [of "[]" cs] sum_length_filter_compl [of "is_command" cs]
  by (simp add: initialize_def buildFlowGraph_def adjacency_total_def comp_def)

text \<open>
  C3 (as the claim states it) fails: a diagram whose only line is \<open>activate A\<close> stores
  one command marker and no connection, and the flow graph built from it has one adjacency
  entry.
\<close>

theorem adjacency_total_command_counterexample:
  "adjacency_total (buildFlowGraph
      [\<lparr>conn_id = ''command-0'', conn_from = Null, conn_to = Null,
        conn_label = ''activate A'', arrowType = ''command'', connectionType = None,
        conn_style = \<lparr>strokeWidth = 1, strokeDasharray = ''none''\<rparr>,
        conn_command = Some (''activate'', ''A'')\<rparr>])
   \<noteq> length (filter (Not \<circ> is_command)
      [\<lparr>conn_id = ''command-0'', conn_from = Null, conn_to = Null,
        conn_label = ''activate A'', arrowType = ''command'', connectionType = None,
        conn_style = \<lparr>strokeWidth = 1, strokeDasharray = ''none''\<rparr>,
        conn_command = Some (''activate'', ''A'')\<rparr>])"
  by (simp add: buildFlowGraph_def add_edge_def adjacency_total_def is_command_def)

section \<open>Flow animation: the per-path visited set\<close>

lemma visits_Nil: "visits [] = []" by (simp add: visits_def)
lemma visits_append: "visits (xs @ ys) = visits xs @ visits ys" by (simp add: visits_def)
lemma visits_Cons:
  "visits (ev # tr) = (case ev of HighlightObject k \<Rightarrow> [k] | _ \<Rightarrow> []) @ visits tr"
  by (simp add: visits_def)
lemma visits_animateConnection: "visits (animateConnection r cid) = []"
  by (simp add: animateConnection_def visits_def)

lemma visits_avoid_visited:
  "set (visits (animateFlow g r x V)) \<inter> V = {}"
  "set (visits (animateBranches g r V n cs)) \<inter> V = {}"
proof (induction g r x V and g r V n cs rule: animateFlow_animateBranches.induct)
  case (1 g running objectId visitedObjects)
  show ?case
  proof (cases "\<not> running \<or> objectId \<in> visitedObjects")
    case True
    then show ?thesis by (simp add: visits_Nil)
  next
    case False
    show ?thesis
    proof (cases "outgoing g objectId")
      case Nil
      with False show ?thesis by (simp add: visits_Cons visits_Nil)
    next
      case (Cons c cs)
      with False 1 have "set (visits (animateBranches g running (insert objectId visitedObjects)
          (length (c # cs)) (c # cs))) \<inter> insert objectId visitedObjects = {}"
        by blast
      with False Cons show ?thesis by (auto simp: visits_Cons simp del: animateBranches.simps)
    qed
  qed
next
  case (2 g running visitedObjects n)
  show ?case by (simp add: visits_Nil)
next
  case (3 g running visitedObjects n c cs)
  show ?case
  proof (cases running)
    case False
    then show ?thesis by (simp add: visits_Nil)
  next
    case True
    with 3 have a: "set (visits (animateFlow g running (edge_to c) visitedObjects)) \<inter> visitedObjects = {}"
      and b: "set (visits (animateBranches g running visitedObjects n cs)) \<inter> visitedObjects = {}"
      by blast+
    from True a b show ?thesis
      by (auto simp: visits_append visits_Cons visits_Nil visits_animateConnection
               simp del: animateFlow.simps)
  qed
qed

lemma visits_animateFlow_head:
  assumes "x \<notin> V"
  shows "\<exists>rest. visits (animateFlow g True x V) = x # rest \<and> x \<notin> set rest \<and> set rest \<inter> V = {}"
proof (cases "outgoing g x")
  case Nil
  with assms show ?thesis by (simp add: visits_Cons visits_Nil)
next
  case (Cons c cs)
  let ?rest = "visits (animateBranches g True (insert x V) (length (c # cs)) (c # cs))"
  have "set ?rest \<inter> insert x V = {}" by (rule visits_avoid_visited)
  moreover have "visits (animateFlow g True x V) = x # ?rest"
    using assms Cons by (simp add: visits_Cons del: animateBranches.simps)
  ultimately show ?thesis by auto
qed








section \<open>Parser: the dashed-arrow scenario\<close>

text \<open>
  C2, on the code.  The scenario input \<open>"A -> B: hi\\nB --> A: ok"\<close>: the second line
  is matched by the first pattern of the catalog, the one for \<open>->\<close>, before the pattern
  for \<open>-->\<close> is tried.  The patterns are not anchored, and \<open>(\\w+|\\S+)\<close> matches the
  single character \<open>-\<close> at position 2, followed by the marker \<open>->\<close>.  The second
  connection is therefore stored from the entity \<open>-\<close> to \<open>A\<close> with kind \<open>solid\<close>,
  and the entity \<open>-\<close> is created: three entities, and no dashed connection from \<open>B\<close>
  to \<open>A\<close>.
\<close>

theorem parse_dashed_scenario:
  "parse (Str (''A -> B: hi'' @ [CHR 0x0A] @ ''B --> A: ok'')) =
   Inr \<lparr>diagram_objects =
        [\<lparr>obj_id = Str ''A'', obj_name = Str ''A'', obj_type = ''participant'',
          obj_x = 0, obj_y = 0, obj_width = 120, obj_height = 60\<rparr>,
         \<lparr>obj_id = Str ''B'', obj_name = Str ''B'', obj_type = ''participant'',
          obj_x = 0, obj_y = 0, obj_width = 120, obj_height = 60\<rparr>,
         \<lparr>obj_id = Str ''-'', obj_name = Str ''-'', obj_type = ''participant'',
          obj_x = 0, obj_y = 0, obj_width = 120, obj_height = 60\<rparr>],
      diagram_connections =
        [\<lparr>conn_id = ''A-B-0'', conn_from = Str ''A'', conn_to = Str ''B'',
          conn_label = ''hi'', arrowType = ''->'', connectionType = Some ''solid'',
          conn_style = \<lparr>strokeWidth = 2, strokeDasharray = ''none''\<rparr>,
          conn_command = None\<rparr>,
         \<lparr>conn_id = ''--A-1'', conn_from = Str ''-'', conn_to = Str ''A'',
          conn_label = ''ok'', arrowType = ''->'', connectionType = Some ''solid'',
          conn_style = \<lparr>strokeWidth = 2, strokeDasharray = ''none''\<rparr>,
          conn_command = None\<rparr>]\<rparr>"
  by code_simp

section \<open>Auto-layout: grid cells and clamping\<close>

lemma autoLayout_length: "length (autoLayout objs W H) = length objs"
  by (simp add: autoLayout_def Let_def)

lemma autoLayout_nth:
  assumes "i < length objs"
  shows "autoLayout objs W H ! i =
     place (grid_cols (length objs))
       ((W - 100) / real (grid_cols (length objs)))
       ((H - 100) / real (grid_rows (length objs)))
       W H i (objs ! i)"
  using assms by (auto simp: autoLayout_def Let_def nth_enumerate_eq)

lemma real_nat_pred:
  fixes z :: int
  assumes "0 < z"
  shows "real (nat z - 1) = real_of_int z - 1"
proof -
  from assms have "int (nat z - 1) = z - 1" by linarith
  then have "real_of_int (int (nat z - 1)) = real_of_int (z - 1)" by (rule arg_cong)
  then show ?thesis by simp
qed

lemma cols_bounds:
  assumes "0 < n"
  shows "0 < grid_cols n"
    and "n \<le> grid_cols n * grid_cols n"
    and "(grid_cols n - 1) * (grid_cols n - 1) < n"
  unfolding grid_cols_def
proof -
  let ?c = "nat \<lceil>sqrt (real n)\<rceil>"
  have pos: "0 < sqrt (real n)" using assms by simp
  from pos have zpos: "0 < \<lceil>sqrt (real n)\<rceil>" by (simp only: zero_less_ceiling)
  then show c0: "0 < ?c" by (simp only: zero_less_nat_eq)
  have le: "sqrt (real n) \<le> real ?c" by (simp add: of_nat_ceiling)
  have b0: "0 \<le> real ?c" by (rule of_nat_0_le_iff)
  have s0: "0 \<le> sqrt (real n)" using pos by (rule less_imp_le)
  from le le b0 s0 have "sqrt (real n) * sqrt (real n) \<le> real ?c * real ?c"
    by (rule mult_mono)
  then have "real n \<le> real (?c * ?c)" by simp
  then show "n \<le> ?c * ?c" by (simp only: of_nat_le_iff)
  have "real_of_int \<lceil>sqrt (real n)\<rceil> - 1 < sqrt (real n)" by linarith
  moreover have "real (?c - 1) = real_of_int \<lceil>sqrt (real n)\<rceil> - 1"
    using zpos by (rule real_nat_pred)
  ultimately have lt: "real (?c - 1) < sqrt (real n)" by simp
  have d0: "0 \<le> real (?c - 1)" by (rule of_nat_0_le_iff)
  from lt lt d0 d0 have "real (?c - 1) * real (?c - 1) < sqrt (real n) * sqrt (real n)"
    by (rule mult_strict_mono')
  then have "real ((?c - 1) * (?c - 1)) < real n" by simp
  then show "(?c - 1) * (?c - 1) < n" by (simp only: of_nat_less_iff)
qed

lemma place_bounds_x:
  assumes "obj_width ob + 100 \<le> W"
  shows "50 \<le> obj_x (place c cw ch W H i ob)"
    and "obj_x (place c cw ch W H i ob) + obj_width (place c cw ch W H i ob) \<le> W - 50"
  using assms by (auto simp: place_def Let_def)

lemma place_bounds_y:
  assumes "obj_height ob + 100 \<le> H"
  shows "50 \<le> obj_y (place c cw ch W H i ob)"
    and "obj_y (place c cw ch W H i ob) + obj_height (place c cw ch W H i ob) \<le> H - 50"
  using assms by (auto simp: place_def Let_def)

text \<open>
  C9 (as the claim states it) fails.  An entity whose name has 100 characters is 840 wide
  (\<open>100 * 8 + 40\<close>); on the 800 by 600 canvas the application uses, the clamp
  \<open>max(padding, min(x, canvasWidth - width - padding))\<close> pins it at \<open>x = 50\<close>, and its
  right edge is at 890, outside the canvas.
\<close>

theorem autoLayout_overflow_counterexample:
  "\<not> obj_x (hd (autoLayout
        [\<lparr>obj_id = Str ''L'', obj_name = Str (replicate 100 (CHR ''a'')),
          obj_type = ''participant'', obj_x = 0, obj_y = 0, obj_width = 840, obj_height = 60\<rparr>]
        800 600))
      + obj_width (hd (autoLayout
        [\<lparr>obj_id = Str ''L'', obj_name = Str (replicate 100 (CHR ''a'')),
          obj_type = ''participant'', obj_x = 0, obj_y = 0, obj_width = 840, obj_height = 60\<rparr>]
        800 600))
      \<le> 800"
  by (simp add: autoLayout_def place_def Let_def grid_cols_def grid_rows_def)

text \<open>
  C9 (amended).  For a non-empty entity list, \<open>autoLayout\<close> keeps the list and every field
  but the position.  The grid has \<open>cols = ceil(sqrt(n))\<close> columns (the least number whose
  square is at least \<open>n\<close>) and \<open>ceil(n / cols)\<close> rows; entity \<open>i\<close>, in insertion order,
  gets column \<open>i mod cols\<close> and row \<open>i div cols\<close>, is centred in its cell, and is then
  clamped to \<open>[50, canvas - size - 50]\<close> with the lower bound winning.  When its width plus
  100 is at most the canvas width, its box lies horizontally within the padded canvas, and
  likewise vertically for its height; a larger box is pinned at the padding and overflows.
\<close>

theorem autoLayout_grid:
  assumes "i < length objs"
  shows "length (autoLayout objs W H) = length objs
   \<and> (grid_cols (length objs) - 1) * (grid_cols (length objs) - 1) < length objs
   \<and> length objs \<le> grid_cols (length objs) * grid_cols (length objs)
   \<and> autoLayout objs W H ! i =
       (objs ! i)\<lparr>
         obj_x := max 50 (min (50 + real (i mod grid_cols (length objs))
                                     * ((W - 100) / real (grid_cols (length objs)))
                                  + (W - 100) / real (grid_cols (length objs)) / 2
                                  - obj_width (objs ! i) / 2)
                              (W - obj_width (objs ! i) - 50)),
         obj_y := max 50 (min (50 + real (i div grid_cols (length objs))
                                     * ((H - 100) / real (grid_rows (length objs)))
                                  + (H - 100) / real (grid_rows (length objs)) / 2
                                  - obj_height (objs ! i) / 2)
                              (H - obj_height (objs ! i) - 50))\<rparr>
   \<and> (obj_width (objs ! i) + 100 \<le> W \<longrightarrow>
        50 \<le> obj_x (autoLayout objs W H ! i)
        \<and> obj_x (autoLayout objs W H ! i) + obj_width (autoLayout objs W H ! i) \<le> W - 50)
   \<and> (obj_height (objs ! i) + 100 \<le> H \<longrightarrow>
        50 \<le> obj_y (autoLayout objs W H ! i)
        \<and> obj_y (autoLayout objs W H ! i) + obj_height (autoLayout objs W H ! i) \<le> H - 50)"
proof -
  from assms have n: "0 < length objs" by auto
  note nth = autoLayout_nth [OF assms, of W H]
  show ?thesis
  proof (intro conjI impI)
    show "length (autoLayout objs W H) = length objs" by (rule autoLayout_length)
    show "(grid_cols (length objs) - 1) * (grid_cols (length objs) - 1) < length objs"
      using n by (rule cols_bounds)
    show "length objs \<le> grid_cols (length objs) * grid_cols (length objs)"
      using n by (rule cols_bounds)
    show "autoLayout objs W H ! i =
       (objs ! i)\<lparr>
         obj_x := max 50 (min (50 + real (i mod grid_cols (length objs))
                                     * ((W - 100) / real (grid_cols (length objs)))
                                  + (W - 100) / real (grid_cols (length objs)) / 2
                                  - obj_width (objs ! i) / 2)
                              (W - obj_width (objs ! i) - 50)),
         obj_y := max 50 (min (50 + real (i div grid_cols (length objs))
                                     * ((H - 100) / real (grid_rows (length objs)))
                                  + (H - 100) / real (grid_rows (length objs)) / 2
                                  - obj_height (objs ! i) / 2)
                              (H - obj_height (objs ! i) - 50))\<rparr>"
      unfolding nth by (simp add: place_def Let_def)
  next
    assume "obj_width (objs ! i) + 100 \<le> W"
    then show "50 \<le> obj_x (autoLayout objs W H ! i)" unfolding nth by (rule place_bounds_x)
  next
    assume "obj_width (objs ! i) + 100 \<le> W"
    then show "obj_x (autoLayout objs W H ! i) + obj_width (autoLayout objs W H ! i) \<le> W - 50"
      unfolding nth by (rule place_bounds_x)
  next
    assume "obj_height (objs ! i) + 100 \<le> H"
    then show "50 \<le> obj_y (autoLayout objs W H ! i)" unfolding nth by (rule place_bounds_y)
  next
    assume "obj_height (objs ! i) + 100 \<le> H"
    then show "obj_y (autoLayout objs W H ! i) + obj_height (autoLayout objs W H ! i) \<le> H - 50"
      unfolding nth by (rule place_bounds_y)
  qed
qed

theorem autoLayout_grid_witness:
  "(1::nat) < length
      [\<lparr>obj_id = Str ''A'', obj_name = Str ''A'', obj_type = ''actor'',
        obj_x = 0, obj_y = 0, obj_width = 120, obj_height = 60\<rparr>,
       \<lparr>obj_id = Str ''B'', obj_name = Str ''B'', obj_type = ''participant'',
        obj_x = 0, obj_y = 0, obj_width = 160, obj_height = 60\<rparr>]
   \<and> (160::real) + 100 \<le> 800 \<and> (60::real) + 100 \<le> 600
   \<and> 50 \<le> obj_x (autoLayout
      [\<lparr>obj_id = Str ''A'', obj_name = Str ''A'', obj_type = ''actor'',
        obj_x = 0, obj_y = 0, obj_width = 120, obj_height = 60\<rparr>,
       \<lparr>obj_id = Str ''B'', obj_name = Str ''B'', obj_type = ''participant'',
        obj_x = 0, obj_y = 0, obj_width = 160, obj_height = 60\<rparr>] 800 600 ! 1)
   \<and> obj_x (autoLayout
      [\<lparr>obj_id = Str ''A'', obj_name = Str ''A'', obj_type = ''actor'',
        obj_x = 0, obj_y = 0, obj_width = 120, obj_height = 60\<rparr>,
       \<lparr>obj_id = Str ''B'', obj_name = Str ''B'', obj_type = ''participant'',
        obj_x = 0, obj_y = 0, obj_width = 160, obj_height = 60\<rparr>] 800 600 ! 1)
      + obj_width (autoLayout
      [\<lparr>obj_id = Str ''A'', obj_name = Str ''A'', obj_type = ''actor'',
        obj_x = 0, obj_y = 0, obj_width = 120, obj_height = 60\<rparr>,
       \<lparr>obj_id = Str ''B'', obj_name = Str ''B'', obj_type = ''participant'',
        obj_x = 0, obj_y = 0, obj_width = 160, obj_height = 60\<rparr>] 800 600 ! 1) \<le> 750
   \<and> 50 \<le> obj_y (autoLayout
      [\<lparr>obj_id = Str ''A'', obj_name = Str ''A'', obj_type = ''actor'',
        obj_x = 0, obj_y = 0, obj_width = 120, obj_height = 60\<rparr>,
       \<lparr>obj_id = Str ''B'', obj_name = Str ''B'', obj_type = ''participant'',
        obj_x = 0, obj_y = 0, obj_width = 160, obj_height = 60\<rparr>] 800 600 ! 1)
   \<and> obj_y (autoLayout
      [\<lparr>obj_id = Str ''A'', obj_name = Str ''A'', obj_type = ''actor'',
        obj_x = 0, obj_y = 0, obj_width = 120, obj_height = 60\<rparr>,
       \<lparr>obj_id = Str ''B'', obj_name = Str ''B'', obj_type = ''participant'',
        obj_x = 0, obj_y = 0, obj_width = 160, obj_height = 60\<rparr>] 800 600 ! 1)
      + obj_height (autoLayout
      [\<lparr>obj_id = Str ''A'', obj_name = Str ''A'', obj_type = ''actor'',
        obj_x = 0, obj_y = 0, obj_width = 120, obj_height = 60\<rparr>,
       \<lparr>obj_id = Str ''B'', obj_name = Str ''B'', obj_type = ''participant'',
        obj_x = 0, obj_y = 0, obj_width = 160, obj_height = 60\<rparr>] 800 600 ! 1) \<le> 550"
proof -
  let ?objs = "[\<lparr>obj_id = Str ''A'', obj_name = Str ''A'', obj_type = ''actor'',
        obj_x = 0, obj_y = 0, obj_width = 120, obj_height = 60\<rparr>,
       \<lparr>obj_id = Str ''B'', obj_name = Str ''B'', obj_type = ''participant'',
        obj_x = 0, obj_y = 0, obj_width = 160, obj_height = 60\<rparr>]"
  have i: "(1::nat) < length ?objs" by simp
  have w: "obj_width (?objs ! 1) + 100 \<le> 800" by simp
  have h: "obj_height (?objs ! 1) + 100 \<le> 600" by simp
  from autoLayout_grid [OF i, of 800 600] w h
  have "50 \<le> obj_x (autoLayout ?objs 800 600 ! 1)"
    "obj_x (autoLayout ?objs 800 600 ! 1) + obj_width (autoLayout ?objs 800 600 ! 1) \<le> 800 - 50"
    "50 \<le> obj_y (autoLayout ?objs 800 600 ! 1)"
    "obj_y (autoLayout ?objs 800 600 ! 1) + obj_height (autoLayout ?objs 800 600 ! 1) \<le> 600 - 50"
    by blast+
  then show ?thesis by simp
qed

section \<open>Path finder: breadth-first search returns a shortest path\<close>

lemma connected_snoc:
  "connected g (p @ [v]) = (connected g p \<and> (p = [] \<or> v \<in> edge_to ` set (outgoing g (last p))))"
  by (induction g p rule: connected.induct) auto

lemma edges_iff: "(u, v) \<in> edges g \<longleftrightarrow> v \<in> edge_to ` set (outgoing g u)"
  by (auto simp: edges_def)

lemma walk_path_between: "walk g s p t \<Longrightarrow> path_between g s t p"
proof (induction rule: walk.induct)
  case walk_start
  show ?case by (simp add: path_between_def)
next
  case (walk_step p u v)
  then show ?case by (auto simp: path_between_def connected_snoc edges_iff)
qed

lemma path_between_walk: "path_between g s t p \<Longrightarrow> walk g s p t"
proof (induction p arbitrary: t rule: rev_induct)
  case Nil
  then show ?case by (simp add: path_between_def)
next
  case (snoc v p)
  show ?case
  proof (cases "p = []")
    case True
    with snoc.prems show ?thesis by (auto simp: path_between_def intro: walk_start)
  next
    case False
    with snoc.prems have "path_between g s (last p) p" and e: "(last p, v) \<in> edges g" and "t = v"
      by (auto simp: path_between_def connected_snoc edges_iff)
    from snoc.IH [OF this(1)] e \<open>t = v\<close> show ?thesis by (auto intro: walk_step)
  qed
qed

lemma walk_nonempty: "walk g s p t \<Longrightarrow> p \<noteq> []"
  by (induction rule: walk.induct) auto

lemma walk_last_step:
  assumes "walk g s q t" "s \<noteq> t"
  obtains q0 u where "q = q0 @ [t]" "walk g s q0 u" "(u, t) \<in> edges g"
  using assms by (cases rule: walk.cases) auto

text \<open>Every path from the start to an unvisited entity is at least as long as some queued
  path.\<close>

lemma bfs_frontier:
  assumes "bfs_inv g s t V Q"
  shows "walk g s q k \<Longrightarrow> k \<notin> V \<Longrightarrow> \<exists>e \<in> set Q. length (snd e) \<le> length q"
proof (induction rule: walk.induct)
  case walk_start
  with assms have "(s, [s]) \<in> set Q" by (auto simp: bfs_inv_def)
  then show ?case by force
next
  case (walk_step p u v)
  show ?case
  proof (cases "u \<in> V")
    case False
    with walk_step.IH obtain e where "e \<in> set Q" "length (snd e) \<le> length p" by blast
    then show ?thesis by (intro bexI [of _ e]) auto
  next
    case True
    from assms have G: "\<forall>u \<in> V. \<forall>w. (u, w) \<in> edges g \<and> w \<notin> V \<longrightarrow>
            (\<exists>p'. (w, p') \<in> set Q \<and> (\<forall>q'. walk g s q' u \<longrightarrow> length p' \<le> length q' + 1))"
      unfolding bfs_inv_def by (elim conjE)
    with True walk_step.hyps(2) walk_step.prems
    obtain p' where p': "(v, p') \<in> set Q" "\<forall>q'. walk g s q' u \<longrightarrow> length p' \<le> length q' + 1"
      by blast
    from p'(2) walk_step.hyps(1) have "length p' \<le> length p + 1" by blast
    with p'(1) show ?thesis by (intro bexI [of _ "(v, p')"]) auto
  qed
qed

lemma bfs_head_min:
  assumes "bfs_inv g s t V ((k, p) # Q)" "e \<in> set ((k, p) # Q)"
  shows "length p \<le> length (snd e)"
proof -
  from assms(1) have "sorted (map (\<lambda>e. length (snd e)) ((k, p) # Q))"
    unfolding bfs_inv_def by (elim conjE)
  with assms(2) show ?thesis by auto
qed

lemma bfs_head_shortest:
  assumes "bfs_inv g s t V ((k, p) # Q)" "walk g s q u" "u \<notin> V"
  shows "length p \<le> length q"
proof -
  from bfs_frontier [OF assms] obtain e where "e \<in> set ((k, p) # Q)" "length (snd e) \<le> length q"
    by blast
  with bfs_head_min [OF assms(1) this(1)] show ?thesis by simp
qed

lemma scan_connections_eq:
  "scan_connections t V p conns Q =
     (if t \<in> edge_to ` set conns then Inl (p @ [t])
      else Inr (Q @ map (\<lambda>c. (edge_to c, p @ [edge_to c])) (filter (\<lambda>c. edge_to c \<notin> V) conns)))"
  by (induction conns arbitrary: Q) auto

lemma bfs_inv_init: "bfs_inv g s t {} [(s, [s])]"
  by (simp add: bfs_inv_def walk_start)

lemma bfs_inv_skip:
  assumes "bfs_inv g s t V ((k, p) # Q)" "k \<in> V"
  shows "bfs_inv g s t V Q"
  unfolding bfs_inv_def
proof (intro conjI)
  from assms(1) show "\<forall>e \<in> set Q. walk g s (snd e) (fst e)" by (simp add: bfs_inv_def)
  from assms(1) show "sorted (map (\<lambda>e. length (snd e)) Q)" by (simp add: bfs_inv_def)
  from assms(1) show "\<forall>e \<in> set Q. \<forall>e' \<in> set Q. length (snd e) \<le> length (snd e') + 1"
    by (simp add: bfs_inv_def)
  from assms(1) show "\<forall>v \<in> V. (v, t) \<notin> edges g" by (simp add: bfs_inv_def)
  from assms show "s \<in> V \<or> (s, [s]) \<in> set Q" by (auto simp: bfs_inv_def)
  from assms(1) have G: "\<forall>u \<in> V. \<forall>w. (u, w) \<in> edges g \<and> w \<notin> V \<longrightarrow>
        (\<exists>p'. (w, p') \<in> set ((k, p) # Q) \<and> (\<forall>q'. walk g s q' u \<longrightarrow> length p' \<le> length q' + 1))"
    unfolding bfs_inv_def by (elim conjE)
  show "\<forall>u \<in> V. \<forall>w. (u, w) \<in> edges g \<and> w \<notin> V \<longrightarrow>
        (\<exists>p'. (w, p') \<in> set Q \<and> (\<forall>q'. walk g s q' u \<longrightarrow> length p' \<le> length q' + 1))"
  proof (intro ballI allI impI)
    fix u w assume u: "u \<in> V" and w: "(u, w) \<in> edges g \<and> w \<notin> V"
    with G obtain p' where p': "(w, p') \<in> set ((k, p) # Q)"
      "\<forall>q'. walk g s q' u \<longrightarrow> length p' \<le> length q' + 1" by blast
    from w assms(2) have "w \<noteq> k" by auto
    with p' show "\<exists>p'. (w, p') \<in> set Q \<and> (\<forall>q'. walk g s q' u \<longrightarrow> length p' \<le> length q' + 1)"
      by auto
  qed
qed


lemma sorted_map_const: "sorted (map (\<lambda>_. c::nat) xs)"
  by (induction xs) auto

lemma bfs_inv_expand:
  assumes inv: "bfs_inv g s t V ((k, p) # Q)" and k: "k \<notin> V"
    and nt: "t \<notin> edge_to ` set (outgoing g k)"
  shows "bfs_inv g s t (insert k V)
           (Q @ map (\<lambda>c. (edge_to c, p @ [edge_to c]))
                    (filter (\<lambda>c. edge_to c \<notin> insert k V) (outgoing g k)))"
    (is "bfs_inv g s t ?V (Q @ ?new)")
proof -
  from inv have A: "\<forall>e \<in> set ((k, p) # Q). walk g s (snd e) (fst e)"
    unfolding bfs_inv_def by (elim conjE)
  from inv have B: "sorted (map (\<lambda>e. length (snd e)) ((k, p) # Q))"
    unfolding bfs_inv_def by (elim conjE)
  from inv have C: "\<forall>e \<in> set ((k, p) # Q). \<forall>e' \<in> set ((k, p) # Q). length (snd e) \<le> length (snd e') + 1"
    unfolding bfs_inv_def by (elim conjE)
  from inv have D: "\<forall>v \<in> V. (v, t) \<notin> edges g"
    unfolding bfs_inv_def by (elim conjE)
  from inv have E: "s \<in> V \<or> (s, [s]) \<in> set ((k, p) # Q)"
    unfolding bfs_inv_def by (elim conjE)
  from inv have G: "\<forall>u \<in> V. \<forall>w. (u, w) \<in> edges g \<and> w \<notin> V \<longrightarrow>
        (\<exists>p'. (w, p') \<in> set ((k, p) # Q) \<and> (\<forall>q'. walk g s q' u \<longrightarrow> length p' \<le> length q' + 1))"
    unfolding bfs_inv_def by (elim conjE)
  have new: "e \<in> set ?new \<longleftrightarrow> (\<exists>w. e = (w, p @ [w]) \<and> (k, w) \<in> edges g \<and> w \<notin> ?V)" for e
    by (auto simp: edges_def)
  have wp: "walk g s p k" using A by simp
  have minp: "length p \<le> length (snd e)" if "e \<in> set Q" for e
    using B that by auto
  have maxp: "length (snd e) \<le> length p + 1" if "e \<in> set Q" for e
    using C that by auto
  have newlen: "length (snd e) = length p + 1" if "e \<in> set ?new" for e
    using that new by auto
  show ?thesis
    unfolding bfs_inv_def
  proof (intro conjI)
    show "\<forall>e \<in> set (Q @ ?new). walk g s (snd e) (fst e)"
    proof
      fix e assume "e \<in> set (Q @ ?new)"
      then consider "e \<in> set Q" | "e \<in> set ?new" by auto
      then show "walk g s (snd e) (fst e)"
      proof cases
        case 1 with A show ?thesis by simp
      next
        case 2
        with new obtain w where "e = (w, p @ [w])" "(k, w) \<in> edges g" by blast
        with wp show ?thesis by (auto intro: walk_step)
      qed
    qed
  next
    have "map (\<lambda>e. length (snd e)) ?new
            = map (\<lambda>_. length p + 1) (filter (\<lambda>c. edge_to c \<notin> ?V) (outgoing g k))"
      by simp
    then have "sorted (map (\<lambda>e. length (snd e)) ?new)" by (simp only: sorted_map_const)
    moreover from B have "sorted (map (\<lambda>e. length (snd e)) Q)" by simp
    moreover have "\<forall>x \<in> set (map (\<lambda>e. length (snd e)) Q).
                   \<forall>y \<in> set (map (\<lambda>e. length (snd e)) ?new). x \<le> y"
    proof (intro ballI)
      fix x y
      assume "x \<in> set (map (\<lambda>e. length (snd e)) Q)"
        and "y \<in> set (map (\<lambda>e. length (snd e)) ?new)"
      then obtain e e' where "e \<in> set Q" "x = length (snd e)"
        "e' \<in> set ?new" "y = length (snd e')"
        unfolding set_map by blast
      with maxp [of e] newlen [of e'] show "x \<le> y" by simp
    qed
    ultimately show "sorted (map (\<lambda>e. length (snd e)) (Q @ ?new))"
      by (simp only: map_append sorted_append)
  next
    show "\<forall>e \<in> set (Q @ ?new). \<forall>e' \<in> set (Q @ ?new). length (snd e) \<le> length (snd e') + 1"
    proof (intro ballI)
      fix e e' assume "e \<in> set (Q @ ?new)" "e' \<in> set (Q @ ?new)"
      then consider "e \<in> set Q" "e' \<in> set Q" | "e \<in> set Q" "e' \<in> set ?new"
        | "e \<in> set ?new" "e' \<in> set Q" | "e \<in> set ?new" "e' \<in> set ?new" by auto
      then show "length (snd e) \<le> length (snd e') + 1"
      proof cases
        case 1 with C show ?thesis by simp
      next
        case 2 with maxp [of e] newlen [of e'] show ?thesis by simp
      next
        case 3 with minp [of e'] newlen [of e] show ?thesis by simp
      next
        case 4 with newlen [of e] newlen [of e'] show ?thesis by simp
      qed
    qed
  next
    show "\<forall>v \<in> ?V. (v, t) \<notin> edges g"
      using D nt by (auto simp: edges_def)
  next
    show "s \<in> ?V \<or> (s, [s]) \<in> set (Q @ ?new)"
      using E by auto
  next
    show "\<forall>u \<in> ?V. \<forall>w. (u, w) \<in> edges g \<and> w \<notin> ?V \<longrightarrow>
        (\<exists>p'. (w, p') \<in> set (Q @ ?new) \<and> (\<forall>q'. walk g s q' u \<longrightarrow> length p' \<le> length q' + 1))"
    proof (intro ballI allI impI)
      fix u w assume u: "u \<in> ?V" and w: "(u, w) \<in> edges g \<and> w \<notin> ?V"
      show "\<exists>p'. (w, p') \<in> set (Q @ ?new) \<and> (\<forall>q'. walk g s q' u \<longrightarrow> length p' \<le> length q' + 1)"
      proof (cases "u = k")
        case True
        with w have "(w, p @ [w]) \<in> set ?new" using new by blast
        moreover have "\<forall>q'. walk g s q' u \<longrightarrow> length (p @ [w]) \<le> length q' + 1"
        proof (intro allI impI)
          fix q' assume "walk g s q' u"
          with True have "walk g s q' k" by simp
          from bfs_head_shortest [OF inv this k] show "length (p @ [w]) \<le> length q' + 1" by simp
        qed
        ultimately show ?thesis by (intro exI [of _ "p @ [w]"]) simp
      next
        case False
        with u have "u \<in> V" by simp
        with G w obtain p' where p': "(w, p') \<in> set ((k, p) # Q)"
          "\<forall>q'. walk g s q' u \<longrightarrow> length p' \<le> length q' + 1" by blast
        from w have "w \<noteq> k" by simp
        with p'(1) have "(w, p') \<in> set (Q @ ?new)" by simp
        with p'(2) show ?thesis by blast
      qed
    qed
  qed
qed

lemma findPath_loop_correct:
  "bfs_inv g s t V Q \<Longrightarrow> s \<noteq> t \<Longrightarrow>
    (case findPath_loop g t V Q of
       None \<Rightarrow> (\<forall>q. \<not> walk g s q t)
     | Some r \<Rightarrow> walk g s r t \<and> (\<forall>q. walk g s q t \<longrightarrow> length r \<le> length q))"
proof (induction g t V Q rule: findPath_loop.induct)
  case (1 g t V)
  have "\<not> walk g s q t" for q
  proof
    assume "walk g s q t"
    from walk_last_step [OF this 1(2)] obtain q0 u where q: "walk g s q0 u" "(u, t) \<in> edges g"
      by blast
    from 1(1) q(2) have "u \<notin> V" by (auto simp: bfs_inv_def)
    from bfs_frontier [OF 1(1) q(1) this] show False by simp
  qed
  then show ?case by simp
next
  case (2 g t V k p Q)
  note inv = 2(3)
  show ?case
  proof (cases "k \<in> V")
    case True
    from bfs_inv_skip [OF inv True] have "bfs_inv g s t V Q" .
    from 2(1) [OF True this 2(4)] True show ?thesis by simp
  next
    case False
    show ?thesis
    proof (cases "t \<in> edge_to ` set (outgoing g k)")
      case True
      then have e: "(k, t) \<in> edges g" by (auto simp: edges_def)
      from inv have "walk g s p k" by (simp add: bfs_inv_def)
      from this e have w: "walk g s (p @ [t]) t" by (rule walk_step)
      have "length (p @ [t]) \<le> length q" if "walk g s q t" for q
      proof -
        from walk_last_step [OF that 2(4)]
        obtain q0 u where q: "q = q0 @ [t]" "walk g s q0 u" "(u, t) \<in> edges g"
          by blast
        from inv q(3) have "u \<notin> V" by (auto simp: bfs_inv_def)
        from bfs_head_shortest [OF inv q(2) this] q(1) show ?thesis by simp
      qed
      with w False True show ?thesis by (simp add: scan_connections_eq)
    next
      case nt: False
      let ?Q = "Q @ map (\<lambda>c. (edge_to c, p @ [edge_to c]))
                    (filter (\<lambda>c. edge_to c \<notin> insert k V) (outgoing g k))"
      have sc: "scan_connections t (insert k V) p (outgoing g k) Q = Inr ?Q"
        using nt by (simp add: scan_connections_eq)
      from bfs_inv_expand [OF inv False nt] have "bfs_inv g s t (insert k V) ?Q" .
      from 2(2) [OF False sc this 2(4)] False sc show ?thesis by simp
    qed
  qed
qed


text \<open>
  C5.  \<open>findPath(x, x)\<close> is \<open>[x]\<close>.  For \<open>x \<noteq> y\<close>, \<open>findPath(x, y)\<close> is either a
  sequence from \<open>x\<close> to \<open>y\<close> whose consecutive entities are joined by direct
  connections and which is no longer than any other such sequence, or it is \<open>null\<close> and
  no such sequence exists.  On the diamond \<open>A->B, A->C, B->D, C->D\<close> the two shortest
  paths from \<open>A\<close> to \<open>D\<close> tie, and the one through the connection inserted first is
  returned: \<open>[A, B, D]\<close>, and \<open>[A, C, D]\<close> when \<open>A->C\<close> is inserted before
  \<open>A->B\<close>.
\<close>

theorem findPath_shortest:
  "findPath g x x = Some [x]
   \<and> (x \<noteq> y \<longrightarrow>
        (case findPath g x y of
           None \<Rightarrow> (\<forall>q. \<not> path_between g x y q)
         | Some p \<Rightarrow> path_between g x y p \<and> (\<forall>q. path_between g x y q \<longrightarrow> length p \<le> length q)))
   \<and> map_sum id (\<lambda>d. findPath (buildFlowGraph (diagram_connections d)) (Str ''A'') (Str ''D''))
        (parse (Str (''A -> B'' @ [CHR 0x0A] @ ''A -> C'' @ [CHR 0x0A] @ ''B -> D''
                     @ [CHR 0x0A] @ ''C -> D'')))
      = Inr (Some [Str ''A'', Str ''B'', Str ''D''])
   \<and> map_sum id (\<lambda>d. findPath (buildFlowGraph (diagram_connections d)) (Str ''A'') (Str ''D''))
        (parse (Str (''A -> C'' @ [CHR 0x0A] @ ''A -> B'' @ [CHR 0x0A] @ ''B -> D''
                     @ [CHR 0x0A] @ ''C -> D'')))
      = Inr (Some [Str ''A'', Str ''C'', Str ''D''])"
proof (intro conjI impI)
  show "findPath g x x = Some [x]" by (simp add: findPath_def)
next
  assume xy: "x \<noteq> y"
  from findPath_loop_correct [OF bfs_inv_init xy, of g]
  have "case findPath g x y of
          None \<Rightarrow> (\<forall>q. \<not> walk g x q y)
        | Some r \<Rightarrow> walk g x r y \<and> (\<forall>q. walk g x q y \<longrightarrow> length r \<le> length q)"
    using xy by (simp add: findPath_def)
  then show "case findPath g x y of
           None \<Rightarrow> (\<forall>q. \<not> path_between g x y q)
         | Some p \<Rightarrow> path_between g x y p \<and> (\<forall>q. path_between g x y q \<longrightarrow> length p \<le> length q)"
    by (auto split: option.splits dest: path_between_walk walk_path_between)
next
  show "map_sum id (\<lambda>d. findPath (buildFlowGraph (diagram_connections d)) (Str ''A'') (Str ''D''))
        (parse (Str (''A -> B'' @ [CHR 0x0A] @ ''A -> C'' @ [CHR 0x0A] @ ''B -> D''
                     @ [CHR 0x0A] @ ''C -> D'')))
      = Inr (Some [Str ''A'', Str ''B'', Str ''D''])"
    by code_simp
next
  show "map_sum id (\<lambda>d. findPath (buildFlowGraph (diagram_connections d)) (Str ''A'') (Str ''D''))
        (parse (Str (''A -> C'' @ [CHR 0x0A] @ ''A -> B'' @ [CHR 0x0A] @ ''B -> D''
                     @ [CHR 0x0A] @ ''C -> D'')))
      = Inr (Some [Str ''A'', Str ''C'', Str ''D''])"
    by code_simp
qed

theorem findPath_shortest_witness:
  "Str ''A'' \<noteq> Str ''C''
   \<and> findPath
        [(Str ''A'', [\<lparr>edge_to = Str ''B'', connectionId = ''A-B-0'', edge_label = []\<rparr>]),
         (Str ''B'', [\<lparr>edge_to = Str ''C'', connectionId = ''B-C-1'', edge_label = []\<rparr>])]
        (Str ''A'') (Str ''C'') = Some [Str ''A'', Str ''B'', Str ''C'']
   \<and> path_between
        [(Str ''A'', [\<lparr>edge_to = Str ''B'', connectionId = ''A-B-0'', edge_label = []\<rparr>]),
         (Str ''B'', [\<lparr>edge_to = Str ''C'', connectionId = ''B-C-1'', edge_label = []\<rparr>])]
        (Str ''A'') (Str ''C'') [Str ''A'', Str ''B'', Str ''C'']"
proof -
  let ?g = "[(Str ''A'', [\<lparr>edge_to = Str ''B'', connectionId = ''A-B-0'', edge_label = []\<rparr>]),
         (Str ''B'', [\<lparr>edge_to = Str ''C'', connectionId = ''B-C-1'', edge_label = []\<rparr>])]"
  have f: "findPath ?g (Str ''A'') (Str ''C'') = Some [Str ''A'', Str ''B'', Str ''C'']"
    by code_simp
  from findPath_shortest [of ?g "Str ''A''" "Str ''C''"] show ?thesis
    unfolding f by simp
qed

section \<open>Parser: first declaration or reference wins\<close>

lemma keeps_refl: "keeps ps ps"
  by (simp add: keeps_def)

lemma keeps_trans: "keeps a b \<Longrightarrow> keeps b c \<Longrightarrow> keeps a c"
  by (simp add: keeps_def)

lemma keeps_connections: "keeps ps (ps\<lparr>parser_connections := cs\<rparr>)"
  by (simp add: keeps_def ids_agree_def)

lemma addObject_keeps: "addObject i name type ps = Inr ps' \<Longrightarrow> keeps ps ps'"
  by (auto simp: addObject_def keeps_def ids_agree_def update_conv' distinct_update
           split: if_splits ident.splits)

lemma bind_keeps:
  assumes "bind (f ps) g = Inr ps'"
    and "\<And>p. f ps = Inr p \<Longrightarrow> keeps ps p"
    and "\<And>p. g p = Inr ps' \<Longrightarrow> keeps p ps'"
  shows "keeps ps ps'"
  using assms by (auto simp: bind_def split: sum.splits intro: keeps_trans)

lemma addConnection_keeps:
  assumes "addConnection a b l ar t ps = Inr ps'"
  shows "keeps ps ps'"
proof -
  from assms obtain p1 p2 where
    p1: "addObject a a ''participant'' ps = Inr p1" and
    p2: "addObject b b ''participant'' p1 = Inr p2" and
    p3: "\<exists>cs. ps' = p2\<lparr>parser_connections := cs\<rparr>"
    by (auto simp: addConnection_def bind_def split: sum.splits)
  from p3 have "keeps p2 ps'" by (auto simp: keeps_connections)
  with addObject_keeps [OF p1] addObject_keeps [OF p2] show ?thesis
    by (blast intro: keeps_trans)
qed

lemma declaration_loop_keeps:
  "declaration_loop pats line ps = Some (Inr ps') \<Longrightarrow> keeps ps ps'"
  by (induction pats line ps rule: declaration_loop.induct)
     (auto split: option.splits dest: addObject_keeps)

lemma reference_loop_keeps:
  "reference_loop pats line ps = Some (Inr ps') \<Longrightarrow> keeps ps ps'"
proof (induction pats line ps rule: reference_loop.induct)
  case (1 line ps)
  then show ?case by simp
next
  case (2 pattern patterns line ps)
  show ?case
  proof (cases "rx_match pattern line")
    case None
    with 2 show ?thesis by simp
  next
    case (Some m)
    consider (both) "truthy (group m 1)" "truthy (group m 3)"
      | (one) "truthy (group m 1)" "\<not> truthy (group m 3)"
      | (none) "\<not> truthy (group m 1)" by blast
    then show ?thesis
    proof cases
      case both
      with 2(3) Some have "bind (addObject (group m 1) (group m 1) ''participant'' ps)
                           (addObject (group m 3) (group m 3) ''participant'') = Inr ps'" by simp
      then show ?thesis by (rule bind_keeps) (auto dest: addObject_keeps)
    next
      case one
      with 2(3) Some show ?thesis by (auto dest: addObject_keeps)
    next
      case none
      with 2 Some show ?thesis by simp
    qed
  qed
qed

lemma parseObjectDefinition_keeps:
  "parseObjectDefinition line ps = Inr ps' \<Longrightarrow> keeps ps ps'"
  by (auto simp: parseObjectDefinition_def keeps_refl
           split: option.splits if_splits
           dest: declaration_loop_keeps reference_loop_keeps addObject_keeps)

lemma connection_loop_keeps:
  "connection_loop pats line ps = Some (Inr ps') \<Longrightarrow> keeps ps ps'"
  by (induction pats line ps rule: connection_loop.induct)
     (auto simp: Let_def split: option.splits dest: addConnection_keeps)

lemma parseConnection_keeps:
  "parseConnection line ps = Inr ps' \<Longrightarrow> keeps ps ps'"
  by (auto simp: parseConnection_def keeps_refl keeps_connections
           split: option.splits dest: connection_loop_keeps)

lemma forEach_keeps:
  assumes "\<And>x p p'. f x p = Inr p' \<Longrightarrow> keeps p p'"
  shows "forEach f xs ps = Inr ps' \<Longrightarrow> keeps ps ps'"
proof (induction xs arbitrary: ps)
  case Nil
  then show ?case by (simp add: keeps_refl)
next
  case (Cons x xs)
  then show ?case
    by (auto simp: bind_def split: sum.splits intro: keeps_trans dest: assms)
qed


lemma keepsD: "keeps ps ps' \<Longrightarrow> map_of (objects ps) i = Some ob \<Longrightarrow> map_of (objects ps') i = Some ob"
  by (simp add: keeps_def)

lemma passes_keep:
  assumes "forEach parseObjectDefinition ls1 ps = Inr ps1"
    and "forEach parseConnection ls2 ps1 = Inr ps2"
  shows "keeps ps ps1" "keeps ps1 ps2" "keeps ps ps2"
proof -
  show 1: "keeps ps ps1"
    using parseObjectDefinition_keeps assms(1) by (rule forEach_keeps)
  show 2: "keeps ps1 ps2"
    using parseConnection_keeps assms(2) by (rule forEach_keeps)
  from 1 2 show "keeps ps ps2" by (rule keeps_trans)
qed

lemma ids_agree_distinct:
  assumes "ids_agree ps" "distinct (map fst (objects ps))"
  shows "distinct (map obj_id (map snd (objects ps)))"
proof -
  have "obj_id (snd x) = fst x" if "x \<in> set (objects ps)" for x
  proof -
    from that have "(fst x, snd x) \<in> set (objects ps)" by simp
    with assms(2) have "map_of (objects ps) (fst x) = Some (snd x)" by (rule map_of_is_SomeI)
    with assms(1) show ?thesis by (simp add: ids_agree_def)
  qed
  then have eq: "map (obj_id \<circ> snd) (objects ps) = map fst (objects ps)" by simp
  have "distinct (map (obj_id \<circ> snd) (objects ps))" unfolding eq by (rule assms(2))
  then show ?thesis by simp
qed

lemma parse_ids_distinct:
  assumes "parse (Str text) = Inr d"
  shows "distinct (map obj_id (diagram_objects d))"
proof -
  let ?ps0 = "reset \<lparr>objects = [], parser_connections = []\<rparr>"
  from assms obtain ps1 ps2 where
    1: "forEach parseObjectDefinition (source_lines text) ?ps0 = Inr ps1" and
    2: "forEach parseConnection (source_lines text) ps1 = Inr ps2" and
    d: "diagram_objects d = map snd (objects ps2)"
    by (auto simp: parse_def parse_from_def bind_def split: sum.splits)
  have "ids_agree ?ps0" "distinct (map fst (objects ?ps0))"
    by (simp_all add: ids_agree_def reset_def)
  with passes_keep(3) [OF 1 2] have "ids_agree ps2" "distinct (map fst (objects ps2))"
    by (simp_all add: keeps_def)
  then show ?thesis unfolding d by (rule ids_agree_distinct)
qed

text \<open>
  C6.  An entity that exists keeps its record (kind, display name, size, all fields) through
  any call of \<open>addObject\<close>, through the rest of the declaration pass and through the
  connection pass; the entities of a parse result have distinct ids.  In the diagram
  \<open>actor A / participant A / B -> A / database B\<close> the entity \<open>A\<close> stays an actor and
  \<open>B\<close>, first met in a connection line, stays a participant.
\<close>

theorem first_write_wins:
  assumes "map_of (objects ps) i = Some ob"
  shows "(addObject j name type ps = Inr psa \<longrightarrow> map_of (objects psa) i = Some ob)
   \<and> (forEach parseObjectDefinition ls1 ps = Inr ps1 \<longrightarrow>
        map_of (objects ps1) i = Some ob
        \<and> (forEach parseConnection ls2 ps1 = Inr ps2 \<longrightarrow> map_of (objects ps2) i = Some ob))
   \<and> (parse (Str text) = Inr d \<longrightarrow> distinct (map obj_id (diagram_objects d)))
   \<and> map_sum id (\<lambda>d. map (\<lambda>ob. (obj_id ob, obj_type ob)) (diagram_objects d))
        (parse (Str (''actor A'' @ [CHR 0x0A] @ ''participant A'' @ [CHR 0x0A] @ ''B -> A''
                     @ [CHR 0x0A] @ ''database B'')))
      = Inr [(Str ''A'', ''actor''), (Str ''B'', ''participant'')]"
proof (intro conjI impI)
  assume "addObject j name type ps = Inr psa"
  from keepsD [OF addObject_keeps [OF this] assms] show "map_of (objects psa) i = Some ob" .
next
  assume 1: "forEach parseObjectDefinition ls1 ps = Inr ps1"
  have "keeps ps ps1" using parseObjectDefinition_keeps 1 by (rule forEach_keeps)
  from keepsD [OF this assms] show "map_of (objects ps1) i = Some ob" .
next
  assume 1: "forEach parseObjectDefinition ls1 ps = Inr ps1"
    and 2: "forEach parseConnection ls2 ps1 = Inr ps2"
  from keepsD [OF passes_keep(3) [OF 1 2] assms] show "map_of (objects ps2) i = Some ob" .
next
  assume "parse (Str text) = Inr d"
  then show "distinct (map obj_id (diagram_objects d))" by (rule parse_ids_distinct)
next
  show "map_sum id (\<lambda>d. map (\<lambda>ob. (obj_id ob, obj_type ob)) (diagram_objects d))
        (parse (Str (''actor A'' @ [CHR 0x0A] @ ''participant A'' @ [CHR 0x0A] @ ''B -> A''
                     @ [CHR 0x0A] @ ''database B'')))
      = Inr [(Str ''A'', ''actor''), (Str ''B'', ''participant'')]"
    by code_simp
qed

theorem first_write_wins_witness:
  "map_of (objects \<lparr>objects = [(Str ''A'', \<lparr>obj_id = Str ''A'', obj_name = Str ''A'',
        obj_type = ''actor'', obj_x = 0, obj_y = 0, obj_width = 120, obj_height = 60\<rparr>)],
        parser_connections = []\<rparr>) (Str ''A'')
     = Some \<lparr>obj_id = Str ''A'', obj_name = Str ''A'',
        obj_type = ''actor'', obj_x = 0, obj_y = 0, obj_width = 120, obj_height = 60\<rparr>
   \<and> addObject (Str ''A'') (Str ''Alice'') ''database''
        \<lparr>objects = [(Str ''A'', \<lparr>obj_id = Str ''A'', obj_name = Str ''A'',
        obj_type = ''actor'', obj_x = 0, obj_y = 0, obj_width = 120, obj_height = 60\<rparr>)],
        parser_connections = []\<rparr>
     = Inr \<lparr>objects = [(Str ''A'', \<lparr>obj_id = Str ''A'', obj_name = Str ''A'',
        obj_type = ''actor'', obj_x = 0, obj_y = 0, obj_width = 120, obj_height = 60\<rparr>)],
        parser_connections = []\<rparr>
   \<and> forEach parseObjectDefinition [''participant A'', ''entity B'']
        \<lparr>objects = [(Str ''A'', \<lparr>obj_id = Str ''A'', obj_name = Str ''A'',
        obj_type = ''actor'', obj_x = 0, obj_y = 0, obj_width = 120, obj_height = 60\<rparr>)],
        parser_connections = []\<rparr>
     = Inr \<lparr>objects = [(Str ''A'', \<lparr>obj_id = Str ''A'', obj_name = Str ''A'',
        obj_type = ''actor'', obj_x = 0, obj_y = 0, obj_width = 120, obj_height = 60\<rparr>),
        (Str ''B'', \<lparr>obj_id = Str ''B'', obj_name = Str ''B'',
        obj_type = ''entity'', obj_x = 0, obj_y = 0, obj_width = 120, obj_height = 60\<rparr>)],
        parser_connections = []\<rparr>
   \<and> forEach parseConnection [''activate A'']
        \<lparr>objects = [(Str ''A'', \<lparr>obj_id = Str ''A'', obj_name = Str ''A'',
        obj_type = ''actor'', obj_x = 0, obj_y = 0, obj_width = 120, obj_height = 60\<rparr>),
        (Str ''B'', \<lparr>obj_id = Str ''B'', obj_name = Str ''B'',
        obj_type = ''entity'', obj_x = 0, obj_y = 0, obj_width = 120, obj_height = 60\<rparr>)],
        parser_connections = []\<rparr>
     = Inr \<lparr>objects = [(Str ''A'', \<lparr>obj_id = Str ''A'', obj_name = Str ''A'',
        obj_type = ''actor'', obj_x = 0, obj_y = 0, obj_width = 120, obj_height = 60\<rparr>),
        (Str ''B'', \<lparr>obj_id = Str ''B'', obj_name = Str ''B'',
        obj_type = ''entity'', obj_x = 0, obj_y = 0, obj_width = 120, obj_height = 60\<rparr>)],
        parser_connections = [\<lparr>conn_id = ''command-0'', conn_from = Null, conn_to = Null,
        conn_label = ''activate A'', arrowType = ''command'', connectionType = None,
        conn_style = \<lparr>strokeWidth = 1, strokeDasharray = ''none''\<rparr>,
        conn_command = Some (''activate'', ''A'')\<rparr>]\<rparr>
   \<and> parse (Str ''actor A'')
     = Inr \<lparr>diagram_objects = [\<lparr>obj_id = Str ''A'', obj_name = Str ''A'',
        obj_type = ''actor'', obj_x = 0, obj_y = 0, obj_width = 120, obj_height = 60\<rparr>],
        diagram_connections = []\<rparr>
   \<and> map_of (objects \<lparr>objects = [(Str ''A'', \<lparr>obj_id = Str ''A'', obj_name = Str ''A'',
        obj_type = ''actor'', obj_x = 0, obj_y = 0, obj_width = 120, obj_height = 60\<rparr>),
        (Str ''B'', \<lparr>obj_id = Str ''B'', obj_name = Str ''B'',
        obj_type = ''entity'', obj_x = 0, obj_y = 0, obj_width = 120, obj_height = 60\<rparr>)],
        parser_connections = [\<lparr>conn_id = ''command-0'', conn_from = Null, conn_to = Null,
        conn_label = ''activate A'', arrowType = ''command'', connectionType = None,
        conn_style = \<lparr>strokeWidth = 1, strokeDasharray = ''none''\<rparr>,
        conn_command = Some (''activate'', ''A'')\<rparr>]\<rparr>) (Str ''A'')
     = Some \<lparr>obj_id = Str ''A'', obj_name = Str ''A'',
        obj_type = ''actor'', obj_x = 0, obj_y = 0, obj_width = 120, obj_height = 60\<rparr>
   \<and> distinct (map obj_id (diagram_objects \<lparr>diagram_objects = [\<lparr>obj_id = Str ''A'',
        obj_name = Str ''A'', obj_type = ''actor'', obj_x = 0, obj_y = 0, obj_width = 120,
        obj_height = 60\<rparr>], diagram_connections = []\<rparr>))"
proof -
  let ?A = "\<lparr>obj_id = Str ''A'', obj_name = Str ''A'',
        obj_type = ''actor'', obj_x = 0, obj_y = 0, obj_width = 120, obj_height = 60\<rparr>"
  let ?B = "\<lparr>obj_id = Str ''B'', obj_name = Str ''B'',
        obj_type = ''entity'', obj_x = 0, obj_y = 0, obj_width = 120, obj_height = 60\<rparr>"
  let ?c = "\<lparr>conn_id = ''command-0'', conn_from = Null, conn_to = Null,
        conn_label = ''activate A'', arrowType = ''command'', connectionType = None,
        conn_style = \<lparr>strokeWidth = 1, strokeDasharray = ''none''\<rparr>,
        conn_command = Some (''activate'', ''A'')\<rparr>"
  let ?ps = "\<lparr>objects = [(Str ''A'', ?A)], parser_connections = []\<rparr>"
  let ?ps1 = "\<lparr>objects = [(Str ''A'', ?A), (Str ''B'', ?B)], parser_connections = []\<rparr>"
  let ?ps2 = "\<lparr>objects = [(Str ''A'', ?A), (Str ''B'', ?B)], parser_connections = [?c]\<rparr>"
  let ?d = "\<lparr>diagram_objects = [?A], diagram_connections = []\<rparr>"
  have h0: "map_of (objects ?ps) (Str ''A'') = Some ?A" by simp
  have h1: "addObject (Str ''A'') (Str ''Alice'') ''database'' ?ps = Inr ?ps" by code_simp
  have h2: "forEach parseObjectDefinition [''participant A'', ''entity B''] ?ps = Inr ?ps1"
    by code_simp
  have h3: "forEach parseConnection [''activate A''] ?ps1 = Inr ?ps2" by code_simp
  have h4: "parse (Str ''actor A'') = Inr ?d" by code_simp
  from first_write_wins [OF h0, of "Str ''A''" "Str ''Alice''" "''database''" ?ps
      "[''participant A'', ''entity B'']" ?ps1 "[''activate A'']" ?ps2 "''actor A''" ?d]
    h0 h1 h2 h3 h4
  show ?thesis by simp
qed

section \<open>Matches and their capture groups\<close>

lemma many_results:
  "st' \<in> set (many k lo s st) \<Longrightarrow>
     snd st' = snd st \<and> fst st + lo \<le> fst st' \<and> (fst st \<le> length s \<longrightarrow> fst st' \<le> length s)"
proof -
  assume a: "st' \<in> set (many k lo s st)"
  let ?n = "length (takeWhile (in_cls k) (drop (fst st) s))"
  from a obtain i where i: "lo \<le> i" "i \<le> ?n" "st' = (fst st + i, snd st)"
    by (auto simp: many_def Let_def)
  have "?n \<le> length (drop (fst st) s)" by (rule length_takeWhile_le)
  with i show ?thesis by auto
qed

lemma rx_run_position:
  "st' \<in> set (rx_run r s st) \<Longrightarrow>
     fst st \<le> fst st' \<and> (fst st \<le> length s \<longrightarrow> fst st' \<le> length s)"
  "st' \<in> set (rx_seq rs s st) \<Longrightarrow>
     fst st \<le> fst st' \<and> (fst st \<le> length s \<longrightarrow> fst st' \<le> length s)"
  "st' \<in> set (rx_alt rs s st) \<Longrightarrow>
     fst st \<le> fst st' \<and> (fst st \<le> length s \<longrightarrow> fst st' \<le> length s)"
proof (induction r s st and rs s st and rs s st arbitrary: st' and st' and st'
       rule: rx_run_rx_seq_rx_alt.induct)
  case (1 w s st)
  show ?case
  proof (cases "take (length w) (drop (fst st) s) = w")
    case True
    then have "length (take (length w) (drop (fst st) s)) = length w" by simp
    then have "length w \<le> length s - fst st" by simp
    with 1 True show ?thesis by auto
  next
    case False
    with 1 show ?thesis by simp
  qed
next
  case (2 k s st)
  then show ?case using many_results [of st' k 1 s st] by simp
next
  case (3 k s st)
  then show ?case using many_results [of st' k 0 s st] by simp
next
  case (4 r s st)
  from 4(2) consider "st' \<in> set (rx_run r s st)" | "st' = st" by auto
  then show ?case
  proof cases
    case 1 then show ?thesis by (rule 4(1))
  next
    case 2 then show ?thesis by simp
  qed
next
  case (5 rs s st)
  then show ?case by simp
next
  case (6 rs s st)
  then show ?case by simp
next
  case (7 i r s st)
  from 7(2) obtain st1 where "st1 \<in> set (rx_run r s st)" "fst st' = fst st1" by auto
  with 7(1) [of st1] show ?case by simp
next
  case (8 s st)
  then show ?case by (auto split: if_splits)
next
  case (9 s st)
  then show ?case by (auto split: if_splits)
next
  case (10 s st)
  then show ?case by simp
next
  case (11 r rs s st)
  from 11(3) obtain st1 where st1: "st1 \<in> set (rx_run r s st)" "st' \<in> set (rx_seq rs s st1)"
    by auto
  from 11(1) [OF st1(1)] 11(2) [OF st1(1) st1(2)] show ?case by auto
next
  case (12 s st)
  then show ?case by simp
next
  case (13 r rs s st)
  from 13(3) consider "st' \<in> set (rx_run r s st)" | "st' \<in> set (rx_alt rs s st)" by auto
  then show ?case
  proof cases
    case 1 then show ?thesis by (rule 13(1))
  next
    case 2 then show ?thesis by (rule 13(2))
  qed
qed


lemma rx_run_keeps_group:
  "st' \<in> set (rx_run r s st) \<Longrightarrow> i \<notin> groups_of r \<Longrightarrow> map_of (snd st') i = map_of (snd st) i"
  "st' \<in> set (rx_seq rs s st) \<Longrightarrow> i \<notin> groups_of_list rs \<Longrightarrow> map_of (snd st') i = map_of (snd st) i"
  "st' \<in> set (rx_alt rs s st) \<Longrightarrow> i \<notin> groups_of_list rs \<Longrightarrow> map_of (snd st') i = map_of (snd st) i"
proof (induction r s st and rs s st and rs s st arbitrary: st' and st' and st'
       rule: rx_run_rx_seq_rx_alt.induct)
  case (2 k s st)
  then show ?case using many_results [of st' k 1 s st] by simp
next
  case (3 k s st)
  then show ?case using many_results [of st' k 0 s st] by simp
next
  case (7 j r s st)
  then show ?case by (auto simp: update_conv')
next
  case (11 r rs s st)
  from 11(3) obtain st1 where st1: "st1 \<in> set (rx_run r s st)" "st' \<in> set (rx_seq rs s st1)"
    by auto
  from 11(4) have "i \<notin> groups_of r" "i \<notin> groups_of_list rs" by auto
  with 11(1) [OF st1(1)] 11(2) [OF st1(1) st1(2)] show ?case by simp
qed (auto split: if_splits)

lemma consumes_advances:
  "st' \<in> set (rx_run r s st) \<Longrightarrow> consumes r \<Longrightarrow> fst st < fst st'"
  "st' \<in> set (rx_seq rs s st) \<Longrightarrow> consumes_some rs \<Longrightarrow> fst st < fst st'"
  "st' \<in> set (rx_alt rs s st) \<Longrightarrow> consumes_all rs \<Longrightarrow> fst st < fst st'"
proof (induction r s st and rs s st and rs s st arbitrary: st' and st' and st'
       rule: rx_run_rx_seq_rx_alt.induct)
  case (1 w s st)
  then show ?case by (auto split: if_splits)
next
  case (2 k s st)
  then show ?case using many_results [of st' k 1 s st] by simp
next
  case (7 j r s st)
  then show ?case by auto
next
  case (11 r rs s st)
  from 11(3) obtain st1 where st1: "st1 \<in> set (rx_run r s st)" "st' \<in> set (rx_seq rs s st1)"
    by auto
  from rx_run_position(1) [OF st1(1)] rx_run_position(2) [OF st1(2)]
  have le: "fst st \<le> fst st1" "fst st1 \<le> fst st'" by simp_all
  from 11(4) consider "consumes r" | "consumes_some rs" by auto
  then show ?case
  proof cases
    case 1
    with 11(1) [OF st1(1)] le show ?thesis by simp
  next
    case 2
    with 11(2) [OF st1(1) st1(2)] le show ?thesis by simp
  qed
qed (auto split: if_splits)

lemma sets_group_nonempty:
  "st' \<in> set (rx_run r s st) \<Longrightarrow> sets_group r i \<Longrightarrow> fst st \<le> length s
     \<Longrightarrow> \<exists>c cs. map_of (snd st') i = Some (c # cs)"
  "st' \<in> set (rx_seq rs s st) \<Longrightarrow> sets_group_some rs i \<Longrightarrow> fst st \<le> length s
     \<Longrightarrow> \<exists>c cs. map_of (snd st') i = Some (c # cs)"
  "st' \<in> set (rx_alt rs s st) \<Longrightarrow> sets_group_all rs i \<Longrightarrow> fst st \<le> length s
     \<Longrightarrow> \<exists>c cs. map_of (snd st') i = Some (c # cs)"
proof (induction r s st and rs s st and rs s st arbitrary: st' and st' and st'
       rule: rx_run_rx_seq_rx_alt.induct)
  case (7 j r s st)
  from 7(2) obtain st1 where st1: "st1 \<in> set (rx_run r s st)"
    and st': "st' = (fst st1, AList.update j (take (fst st1 - fst st) (drop (fst st) s)) (snd st1))"
    by auto
  show ?case
  proof (cases "i = j")
    case True
    with 7(3) have "consumes r" by simp
    from consumes_advances(1) [OF st1 this] rx_run_position(1) [OF st1] 7(4)
    have "fst st < fst st1" "fst st1 \<le> length s" by simp_all
    then have "take (fst st1 - fst st) (drop (fst st) s) \<noteq> []" by simp
    then obtain c cs where "take (fst st1 - fst st) (drop (fst st) s) = c # cs"
      by (cases "take (fst st1 - fst st) (drop (fst st) s)") blast+
    with True st' show ?thesis by (simp add: update_conv')
  next
    case False
    with 7(3) have "sets_group r i" by simp
    from 7(1) [OF st1 this 7(4)] False st' show ?thesis by (simp add: update_conv')
  qed
next
  case (11 r rs s st)
  from 11(3) obtain st1 where st1: "st1 \<in> set (rx_run r s st)" "st' \<in> set (rx_seq rs s st1)"
    by auto
  from rx_run_position(1) [OF st1(1)] 11(5) have le: "fst st1 \<le> length s" by simp
  from 11(4) consider "sets_group r i" "i \<notin> groups_of_list rs" | "sets_group_some rs i" by auto
  then show ?case
  proof cases
    case 1
    from 11(1) [OF st1(1) 1(1) 11(5)] rx_run_keeps_group(2) [OF st1(2) 1(2)]
    show ?thesis by simp
  next
    case 2
    from 11(2) [OF st1(1) st1(2) 2 le] show ?thesis .
  qed
qed (auto split: if_splits)

lemma rx_search_result:
  "rx_search r s ps = Some m \<Longrightarrow> \<exists>p \<in> set ps. \<exists>st \<in> set (rx_run r s (p, [])). m = snd st"
  by (induction ps) (auto split: list.splits)

lemma rx_match_sets_group:
  assumes "rx_match r s = Some m" "sets_group r i"
  shows "truthy (group m i)"
proof -
  from rx_search_result [OF assms(1) [unfolded rx_match_def]]
  obtain p st where "p \<in> set [0 ..< Suc (length s)]"
    and st: "st \<in> set (rx_run r s (p, []))" and m: "m = snd st"
    by blast
  then have p: "p \<le> length s" by auto
  from sets_group_nonempty(1) [OF st assms(2)] p m show ?thesis
    by (auto simp: group_def truthy_def)
qed

section \<open>Parser: no string makes it raise\<close>

lemma addObject_truthy: "truthy name \<Longrightarrow> \<exists>ps'. addObject i name t ps = Inr ps'"
  by (auto simp: addObject_def truthy_def split: ident.splits list.splits)

lemma truthy_js_or: "truthy a \<or> truthy b \<Longrightarrow> truthy (js_or a b)"
  by (auto simp: js_or_def)

lemma declaration_rx_groups:
  assumes "rx_match (declaration_rx kw) line = Some m"
  shows "truthy (group m 1) \<or> truthy (group m 3)"
proof -
  let ?a1 = "Seq [Bol, Lit kw, Many1 Space, Opt (Lit [CHR 0x22]), Grp 1 (Many1 NotQuote),
               Opt (Lit [CHR 0x22]), Many1 Space, Lit ''as'', Many1 Space, Grp 2 (Many1 Word)]"
  let ?a2 = "Seq [Bol, Lit kw, Many1 Space, Grp 3 (Many1 Word)]"
  from rx_search_result [OF assms [unfolded rx_match_def]]
  obtain p st where "p \<in> set [0 ..< Suc (length line)]"
    and st: "st \<in> set (rx_run (declaration_rx kw) line (p, []))" and m: "m = snd st"
    by blast
  then have p: "fst (p, []::captures) \<le> length line" by auto
  from st consider "st \<in> set (rx_run ?a1 line (p, []))" | "st \<in> set (rx_run ?a2 line (p, []))"
    unfolding declaration_rx_def by (auto simp del: rx_seq.simps)
  then show ?thesis
  proof cases
    case 1
    have "sets_group ?a1 1" by simp
    from sets_group_nonempty(1) [OF 1 this p] m show ?thesis
      by (auto simp: group_def truthy_def)
  next
    case 2
    have "sets_group ?a2 3" by simp
    from sets_group_nonempty(1) [OF 2 this p] m show ?thesis
      by (auto simp: group_def truthy_def)
  qed
qed

lemma declaration_loop_ok:
  assumes "\<forall>x \<in> set pats. \<exists>kw. fst x = declaration_rx kw"
  shows "declaration_loop pats line ps = Some res \<Longrightarrow> \<exists>ps'. res = Inr ps'"
  using assms
proof (induction pats line ps rule: declaration_loop.induct)
  case (1 line ps)
  then show ?case by simp
next
  case (2 regex type patterns line ps)
  show ?case
  proof (cases "rx_match regex line")
    case None
    with 2 show ?thesis by simp
  next
    case (Some m)
    from 2(3) obtain kw where "regex = declaration_rx kw" by auto
    with Some have "truthy (js_or (group m 1) (group m 3))"
      by (intro truthy_js_or declaration_rx_groups) simp
    from addObject_truthy [OF this] 2(2) Some show ?thesis by auto
  qed
qed

lemma bind_ok:
  assumes "\<exists>y. r = Inr y" "\<And>y. \<exists>z. f y = Inr z"
  shows "\<exists>z. bind r f = Inr z"
  using assms by (auto simp: bind_def)

lemma reference_loop_ok:
  "reference_loop pats line ps = Some res \<Longrightarrow> \<exists>ps'. res = Inr ps'"
proof (induction pats line ps rule: reference_loop.induct)
  case (1 line ps)
  then show ?case by simp
next
  case (2 pattern patterns line ps)
  show ?case
  proof (cases "rx_match pattern line")
    case None
    with 2 show ?thesis by simp
  next
    case (Some m)
    consider (both) "truthy (group m 1)" "truthy (group m 3)"
      | (one) "truthy (group m 1)" "\<not> truthy (group m 3)"
      | (none) "\<not> truthy (group m 1)" by blast
    then show ?thesis
    proof cases
      case both
      have "\<exists>z. bind (addObject (group m 1) (group m 1) ''participant'' ps)
                      (addObject (group m 3) (group m 3) ''participant'') = Inr z"
        by (intro bind_ok addObject_truthy both)
      with 2(3) Some both show ?thesis by auto
    next
      case one
      with 2(3) Some addObject_truthy [OF one(1), of "group m 1" "''participant''" ps]
      show ?thesis by auto
    next
      case none
      with 2 Some show ?thesis by simp
    qed
  qed
qed

lemma declaration_patterns_shape: "\<forall>x \<in> set declaration_patterns. \<exists>kw. fst x = declaration_rx kw"
  by (auto simp: declaration_patterns_def)

lemma parseObjectDefinition_ok: "\<exists>ps'. parseObjectDefinition line ps = Inr ps'"
proof (cases "declaration_loop declaration_patterns line ps")
  case (Some r)
  with declaration_loop_ok [OF declaration_patterns_shape Some] show ?thesis
    by (simp add: parseObjectDefinition_def)
next
  case None
  note d = None
  show ?thesis
  proof (cases "reference_loop reference_patterns line ps")
    case (Some r)
    with reference_loop_ok [OF Some] d show ?thesis
      by (simp add: parseObjectDefinition_def)
  next
    case None
    show ?thesis
    proof (cases "rx_match note_rx line")
      case None
      with d \<open>reference_loop reference_patterns line ps = None\<close> show ?thesis
        by (simp add: parseObjectDefinition_def)
    next
      case (Some m)
      with d \<open>reference_loop reference_patterns line ps = None\<close>
        addObject_truthy [of "group m 2" "group m 2" "''participant''" ps]
      show ?thesis by (auto simp: parseObjectDefinition_def)
    qed
  qed
qed

lemma addConnection_ok:
  assumes "truthy a" "truthy b"
  shows "\<exists>ps'. addConnection a b l ar t ps = Inr ps'"
  unfolding addConnection_def
  by (intro bind_ok addObject_truthy assms) simp

lemma connection_loop_ok:
  assumes "\<forall>p \<in> set pats. sets_group (cp_regex p) 1 \<and> sets_group (cp_regex p) 3"
  shows "connection_loop pats line ps = Some res \<Longrightarrow> \<exists>ps'. res = Inr ps'"
  using assms
proof (induction pats line ps rule: connection_loop.induct)
  case (1 line ps)
  then show ?case by simp
next
  case (2 pattern patterns line ps)
  show ?case
  proof (cases "rx_match (cp_regex pattern) line")
    case None
    with 2 show ?thesis by simp
  next
    case (Some m)
    from 2(3) have "sets_group (cp_regex pattern) 1" "sets_group (cp_regex pattern) 3" by auto
    from rx_match_sets_group [OF Some this(1)] rx_match_sets_group [OF Some this(2)]
    have t: "truthy (group m 1)" "truthy (group m 3)" .
    show ?thesis
    proof (cases "cp_reverse pattern")
      case True
      with 2(2) Some addConnection_ok [OF t(2) t(1)] show ?thesis by (auto simp: Let_def)
    next
      case False
      with 2(2) Some addConnection_ok [OF t(1) t(2)] show ?thesis by (auto simp: Let_def)
    qed
  qed
qed

lemma connectionPatterns_groups:
  "\<forall>p \<in> set connectionPatterns. sets_group (cp_regex p) 1 \<and> sets_group (cp_regex p) 3"
  by (simp add: connectionPatterns_def labelled_def unlabelled_def labelled_rx_def
        unlabelled_rx_def tok_def)

lemma parseConnection_ok: "\<exists>ps'. parseConnection line ps = Inr ps'"
proof (cases "connection_loop connectionPatterns line ps")
  case (Some r)
  with connection_loop_ok [OF connectionPatterns_groups Some] show ?thesis
    by (simp add: parseConnection_def)
next
  case None
  then show ?thesis by (simp add: parseConnection_def split: option.splits)
qed

lemma forEach_ok:
  assumes "\<And>x s. \<exists>s'. f x s = Inr s'"
  shows "\<exists>s'. forEach f xs s = Inr s'"
proof (induction xs arbitrary: s)
  case Nil
  show ?case by simp
next
  case (Cons x xs)
  from assms [of x s] obtain s1 where "f x s = Inr s1" by blast
  with Cons [of s1] show ?case by (simp add: bind_def)
qed

lemma parse_from_ok: "\<exists>d. parse_from ps0 (Str text) = Inr d"
proof -
  from forEach_ok [of parseObjectDefinition, OF parseObjectDefinition_ok]
  obtain ps1 where 1: "forEach parseObjectDefinition (source_lines text) (reset ps0) = Inr ps1"
    by blast
  from forEach_ok [of parseConnection, OF parseConnection_ok]
  obtain ps2 where 2: "forEach parseConnection (source_lines text) ps1 = Inr ps2"
    by blast
  from 1 2 show ?thesis by (simp add: parse_from_def bind_def)
qed

lemma parse_from_reset: "parse_from ps0 v = parse v"
  by (cases ps0) (simp add: parse_from_def parse_def reset_def split: ident.splits)


text \<open>
  C7.  \<open>parse\<close> raises exactly when its argument is \<open>null\<close> or \<open>undefined\<close>
  (the \<open>TypeError\<close> of \<open>plantumlText.split\<close>); on every string it returns a
  diagram, whatever state the parser was in before.  A text none of whose lines matches a
  pattern gives the empty diagram, which is a result and not an error.
\<close>

theorem parse_raises_iff_null_or_undefined:
  "(\<exists>err. parse_from ps0 v = Inl err) = (v = Null \<or> v = Undefined)
   \<and> (\<exists>d. parse_from ps0 (Str text) = Inr d)
   \<and> parse_from ps0 v = parse v
   \<and> parse (Str (''hello world'' @ [CHR 0x0A] @ ''-> : <-'' @ [CHR 0x0A] @ ''actor''))
       = Inr \<lparr>diagram_objects = [], diagram_connections = []\<rparr>"
proof (intro conjI)
  show "(\<exists>err. parse_from ps0 v = Inl err) = (v = Null \<or> v = Undefined)"
  proof (cases v)
    case (Str t)
    with parse_from_ok [of ps0 t] show ?thesis by auto
  qed (simp_all add: parse_from_def)
next
  show "\<exists>d. parse_from ps0 (Str text) = Inr d" by (rule parse_from_ok)
next
  show "parse_from ps0 v = parse v" by (rule parse_from_reset)
next
  show "parse (Str (''hello world'' @ [CHR 0x0A] @ ''-> : <-'' @ [CHR 0x0A] @ ''actor''))
       = Inr \<lparr>diagram_objects = [], diagram_connections = []\<rparr>"
    by code_simp
qed

section \<open>Static preview: depth-first preorder\<close>

















text \<open>
  C10.  \<open>stopAnimation\<close> writes the running flag, the animation queue and the canvas;
  the flow graph, the stored connections and the speed are what they were.
\<close>

theorem stopAnimation_frame:
  "flowGraph (stopAnimation e) = flowGraph e
   \<and> connections (stopAnimation e) = connections e
   \<and> animationSpeed (stopAnimation e) = animationSpeed e"
  by (simp add: stopAnimation_def Let_def)

section \<open>Restarting the flow animation while a run is in progress\<close>

text \<open>A run that nothing interrupts issues on the event loop the commands of
  \<open>startFlowAnimation\<close> as modelled above, in the same order, and ends with the flag
  cleared and no timer pending.\<close>

lemma machine_agrees_uninterrupted:
  "map_option (\<lambda>m. (map snd (log m), timers m, isAnimating (eng m)))
     (run [Click 0 1 (Str ''A''), Fire, Fire, Fire, Fire, Fire] machine_AB)
   = Some (filter (\<lambda>ev. case ev of Delay ms \<Rightarrow> False | _ \<Rightarrow> True)
             (snd (startFlowAnimation (Str ''A'') (eng machine_AB))), [], False)"
  by code_simp

text \<open>
  C4, on the code.  The diagram is \<open>A -> B\<close>, the speed is 1.  \<open>startFlowAnimation('A')\<close>
  is called at time 0 (run 1) and again at time 100 (run 2), while run 1 waits for its first
  timer, due at 300.  The second call stops the animation and sets \<open>isAnimating\<close> back to
  true in the same synchronous step.  When the timer of run 1 fires, run 1 reads the flag,
  finds it true, and goes on: it highlights the connection \<open>A-B-0\<close>.  Both runs are then
  suspended on timers.
\<close>

theorem restart_does_not_cancel_first_run:
  "map_option (\<lambda>m. (log m, active_runs m, isAnimating (eng m), lineClasses (canvas (eng m))))
     (run [Click 0 1 (Str ''A''), Click 100 2 (Str ''A''), Fire] machine_AB)
   = Some ([(1, ClearAllHighlights), (1, HighlightObject (Str ''A'')),
            (2, ClearAllHighlights), (2, HighlightObject (Str ''A'')),
            (1, HighlightConnection ''A-B-0'')],
           [2, 1], True, [(''A-B-0'', ''active'')])"
  by code_simp

end
